theory Spec2Isabelle
  imports Main
begin

section \<open>The terminal core of redox-sysmon (class TermCoreModule)\<close>

text \<open>
  A shallow embedding of the class \<^verbatim>\<open>TermCoreModule\<close>: the terminal state, the screen
  buffer, the escape-sequence parser, the commands it dispatches to, resize, the
  session log with replay, and the two text extractors.

  Conventions of the embedding.
  \<^item> A JavaScript string is the list of its UTF-16 code units (\<open>nat\<close>).
    \<^verbatim>\<open>write\<close> receives the text that \<^verbatim>\<open>new TextDecoder().decode(data)\<close> yields; for
    ASCII data that text is the data itself. The decoder is a function of the bytes, so
    a logged entry decodes to the same text when it is replayed.
  \<^item> An exception is a value: every method that can throw returns \<open>error + _\<close>. A
    method with a loop that can run forever returns an \<open>option\<close> of that, and \<open>None\<close>
    says that the call does not return.
  \<^item> \<^verbatim>\<open>telemetry\<close> is \<^verbatim>\<open>null\<close> and \<^verbatim>\<open>onUpdate\<close> is undefined on a constructed
    terminal, so \<^verbatim>\<open>logEvent\<close> and \<^verbatim>\<open>updateDisplay\<close> do nothing. The clipboard write
    of \<^verbatim>\<open>copySelection\<close> is an effect outside the object, in a browser, where
    \<^verbatim>\<open>navigator\<close> exists. \<^verbatim>\<open>config\<close> is set by the constructor and assigned nowhere
    else: its fields are constants.
  \<^item> The fields \<^verbatim>\<open>charset\<close>, \<^verbatim>\<open>originMode\<close>, \<^verbatim>\<open>insertMode\<close>,
    \<^verbatim>\<open>applicationKeypad\<close>, \<^verbatim>\<open>keyMappings\<close> and the \<^verbatim>\<open>timestamp\<close> of a log entry
    are never read by the class and are left out.
  \<^item> Rows are values. The source stores references, and a row pushed to the scrollback
    still sits in the screen only after a scroll-up with \<open>scrollTop > scrollBottom\<close> or a
    resize to a negative row count; later writes to that row then show in the scrollback
    as well. No statement below reads the cells of the scrollback.
\<close>

subsection \<open>Numbers\<close>

text \<open>
  The parameters of a CSI sequence come from \<^verbatim>\<open>parseInt\<close> on a digit string of any
  length, and the top of the scroll region is not bounded from above, so a row number can
  be any integer that a double holds, an infinity, or NaN (\<^verbatim>\<open>Infinity - Infinity\<close>).
  These are the values of type \<open>number\<close>, and the arithmetic on them rounds as the
  arithmetic of doubles does.

  The sizes \<^verbatim>\<open>rows\<close> and \<^verbatim>\<open>cols\<close> are what the constructor and the caller of
  \<^verbatim>\<open>resize\<close> set, and every column number is clamped between \<open>0\<close> and \<^verbatim>\<open>cols\<close>: they
  are integers (\<open>int\<close>), exact as long as the sizes stay below \<open>2^53\<close>.
\<close>

datatype number = Num int | Infinity | NegInfinity | NaN

text \<open>The number of binary digits of a natural number.\<close>

fun bitlen :: "nat \<Rightarrow> nat" where
  "bitlen n = (if n = 0 then 0 else Suc (bitlen (n div 2)))"

declare bitlen.simps [simp del]

text \<open>
  The natural number with at most 53 significant binary digits that is nearest to \<open>n\<close>;
  of two that are equally near, the one with the even significand.
\<close>

definition nearest :: "nat \<Rightarrow> nat" where
  "nearest n =
     (if n < 2 ^ 53 then n
      else (let e = bitlen n - 53; q = n div 2 ^ e; r = n mod 2 ^ e
            in (if 2 ^ e < 2 * r \<or> (2 * r = 2 ^ e \<and> odd q) then q + 1 else q) * 2 ^ e))"

text \<open>
  The number for a mathematical integer: the nearest double, and an infinity from
  \<open>2^1024\<close> on.
\<close>

definition number_of :: "int \<Rightarrow> number" where
  "number_of x =
     (let m = nearest (nat \<bar>x\<bar>)
      in if 2 ^ 1024 \<le> m then (if x < 0 then NegInfinity else Infinity)
         else Num (if x < 0 then - int m else int m))"

text \<open>\<^verbatim>\<open>a + b\<close>, \<^verbatim>\<open>a - b\<close>, \<^verbatim>\<open>a < b\<close>, \<^verbatim>\<open>a <= b\<close>, \<^verbatim>\<open>Math.max\<close>, \<^verbatim>\<open>Math.min\<close> and \<^verbatim>\<open>a === b\<close>.\<close>

fun add :: "number \<Rightarrow> number \<Rightarrow> number" where
  "add (Num a) (Num b) = number_of (a + b)"
| "add NaN b = NaN"
| "add a NaN = NaN"
| "add Infinity NegInfinity = NaN"
| "add NegInfinity Infinity = NaN"
| "add Infinity b = Infinity"
| "add a Infinity = Infinity"
| "add NegInfinity b = NegInfinity"
| "add a NegInfinity = NegInfinity"

fun negate :: "number \<Rightarrow> number" where
  "negate (Num a) = Num (- a)"
| "negate Infinity = NegInfinity"
| "negate NegInfinity = Infinity"
| "negate NaN = NaN"

definition sub :: "number \<Rightarrow> number \<Rightarrow> number" where
  "sub a b = add a (negate b)"

fun lt :: "number \<Rightarrow> number \<Rightarrow> bool" where
  "lt (Num a) (Num b) = (a < b)"
| "lt NaN b = False"
| "lt a NaN = False"
| "lt a NegInfinity = False"
| "lt NegInfinity b = True"
| "lt Infinity b = False"
| "lt a Infinity = True"

definition le :: "number \<Rightarrow> number \<Rightarrow> bool" where
  "le a b \<longleftrightarrow> a \<noteq> NaN \<and> b \<noteq> NaN \<and> (a = b \<or> lt a b)"

definition Math_max :: "number \<Rightarrow> number \<Rightarrow> number" where
  "Math_max a b = (if a = NaN \<or> b = NaN then NaN else if lt a b then b else a)"

definition Math_min :: "number \<Rightarrow> number \<Rightarrow> number" where
  "Math_min a b = (if a = NaN \<or> b = NaN then NaN else if lt b a then b else a)"

definition strict_eq :: "number \<Rightarrow> number \<Rightarrow> bool" where
  "strict_eq a b \<longleftrightarrow> a = b \<and> a \<noteq> NaN"

text \<open>The numbers that \<^verbatim>\<open>||\<close> replaces by its right operand.\<close>

definition falsy :: "number \<Rightarrow> bool" where
  "falsy a \<longleftrightarrow> a = Num 0 \<or> a = NaN"

text \<open>
  Column arithmetic. A column number lies between \<open>0\<close> and \<^verbatim>\<open>cols\<close>, so the sum of
  a column number and a parameter is rounded only beyond \<open>2^53\<close>, where \<^verbatim>\<open>Math.min\<close>
  with \<^verbatim>\<open>cols - 1\<close> or \<^verbatim>\<open>Math.max\<close> with \<open>0\<close> discards it: \<open>offset x n\<close> is the
  sum \<^verbatim>\<open>x + n\<close> taken exactly. The result of the clamping is an integer again, which
  \<open>int_of\<close> reads: a parameter is \<^verbatim>\<open>parseInt(p) || 0\<close> or a default, never NaN and
  never negative.
\<close>

fun offset :: "int \<Rightarrow> number \<Rightarrow> number" where
  "offset x (Num k) = Num (x + k)"
| "offset x Infinity = Infinity"
| "offset x NegInfinity = NegInfinity"
| "offset x NaN = NaN"

definition int_of :: "number \<Rightarrow> int" where
  "int_of a = (case a of Num v \<Rightarrow> v | _ \<Rightarrow> 0)"

lemma bitlen_bounds: "0 < n \<Longrightarrow> 2 ^ (bitlen n - 1) \<le> n \<and> n < 2 ^ bitlen n"
proof (induction n rule: bitlen.induct)
  case (1 n)
  show ?case
  proof (cases "n div 2 = 0")
    case True
    with "1.prems" have "n = 1" by (simp add: div_eq_0_iff)
    then show ?thesis by (simp add: bitlen.simps)
  next
    case False
    with "1.IH" "1.prems" have ih: "2 ^ (bitlen (n div 2) - 1) \<le> n div 2" "n div 2 < 2 ^ bitlen (n div 2)"
      by simp_all
    from False have p: "0 < bitlen (n div 2)" by (subst bitlen.simps) simp
    from "1.prems" have b: "bitlen n = Suc (bitlen (n div 2))" by (subst bitlen.simps) simp
    from p have "(2::nat) ^ (bitlen n - 1) = 2 * 2 ^ (bitlen (n div 2) - 1)"
      by (cases "bitlen (n div 2)") (simp_all add: b)
    with ih(1) have "2 ^ (bitlen n - 1) \<le> n" by linarith
    moreover from ih(2) have "n < 2 ^ bitlen n" by (simp add: b)
    ultimately show ?thesis by simp
  qed
qed

lemma nearest_small: "n < 2 ^ 53 \<Longrightarrow> nearest n = n"
  by (simp add: nearest_def)

lemma nearest_large:
  assumes "2 ^ k \<le> n" "53 \<le> k"
  shows "2 ^ k \<le> nearest n"
proof -
  from assms have n: "(2::nat) ^ 53 \<le> n"
    using power_increasing [of 53 k "2::nat"] by linarith
  then have pos: "0 < n" by (cases n) simp_all
  from bitlen_bounds [OF pos] have b: "2 ^ (bitlen n - 1) \<le> n" "n < 2 ^ bitlen n" by simp_all
  from assms(1) b(2) have "(2::nat) ^ k < 2 ^ bitlen n" by linarith
  then have kb: "k < bitlen n" by (simp add: power_strict_increasing_iff)
  define e where "e = bitlen n - 53"
  from kb assms(2) have be: "bitlen n - 1 = 52 + e" "k \<le> 52 + e" by (simp_all add: e_def)
  have "(2::nat) ^ (52 + e) = 2 ^ 52 * 2 ^ e" by (simp add: power_add)
  with b(1) be have "2 ^ 52 * 2 ^ e \<le> n" by simp
  then have q: "2 ^ 52 \<le> n div 2 ^ e"
    by (simp add: less_eq_div_iff_mult_less_eq)
  define m where "m = (if 2 ^ e < 2 * (n mod 2 ^ e) \<or> (2 * (n mod 2 ^ e) = 2 ^ e \<and> odd (n div 2 ^ e))
                       then n div 2 ^ e + 1 else n div 2 ^ e)"
  from q have "2 ^ 52 \<le> m" by (simp add: m_def)
  then have "2 ^ 52 * 2 ^ e \<le> m * 2 ^ e" by (rule mult_le_mono1)
  moreover from be(2) have "(2::nat) ^ k \<le> 2 ^ (52 + e)" by (intro power_increasing) simp_all
  then have "(2::nat) ^ k \<le> 2 ^ 52 * 2 ^ e" by (simp only: power_add)
  moreover from n have "nearest n = m * 2 ^ e"
    by (simp add: nearest_def Let_def e_def [symmetric] m_def)
  ultimately show ?thesis by linarith
qed

lemma number_of_exact: "\<bar>x\<bar> \<le> 9007199254740992 \<Longrightarrow> number_of x = Num x"
proof -
  assume a: "\<bar>x\<bar> \<le> 9007199254740992"
  have p: "(2::nat) ^ 53 = 9007199254740992" by simp
  show ?thesis
  proof (cases "nat \<bar>x\<bar> < 2 ^ 53")
    case True
    then have "nearest (nat \<bar>x\<bar>) = nat \<bar>x\<bar>" by (rule nearest_small)
    moreover from True have "\<not> (2::nat) ^ 1024 \<le> nat \<bar>x\<bar>"
      using power_strict_increasing [of 53 1024 "2::nat"] by linarith
    ultimately show ?thesis by (auto simp: number_of_def Let_def)
  next
    case False
    with a have n: "nat \<bar>x\<bar> = 2 ^ 53" by (simp add: p)
    have "nearest 9007199254740992 = 9007199254740992"
      by (simp add: nearest_def bitlen.simps Let_def)
    with n a show ?thesis by (auto simp: number_of_def Let_def)
  qed
qed

lemma number_of_high:
  assumes "9007199254740992 \<le> x"
  shows "number_of x = Infinity \<or> (\<exists>v. number_of x = Num v \<and> 9007199254740992 \<le> v)"
proof -
  from assms have "2 ^ 53 \<le> nat \<bar>x\<bar>" by simp
  then have "2 ^ 53 \<le> nearest (nat \<bar>x\<bar>)" by (rule nearest_large) simp
  with assms show ?thesis by (auto simp: number_of_def Let_def)
qed


lemma number_of_overflow: "2 ^ 1024 \<le> x \<Longrightarrow> number_of x = Infinity"
proof -
  assume a: "(2::int) ^ 1024 \<le> x"
  then have "(2::nat) ^ 1024 \<le> nat \<bar>x\<bar>"
    by (simp add: le_nat_iff)
  then have "2 ^ 1024 \<le> nearest (nat \<bar>x\<bar>)" by (rule nearest_large) simp
  moreover have "(0::int) < 2 ^ 1024" by simp
  with a have "\<not> x < 0" by linarith
  ultimately show ?thesis by (simp add: number_of_def)
qed

lemma le_simps [simp]:
  "le (Num a) (Num b) \<longleftrightarrow> a \<le> b" "le (Num a) Infinity" "\<not> le Infinity (Num a)"
  "le NegInfinity (Num a)" "\<not> le (Num a) NegInfinity" "\<not> le NaN n" "\<not> le n NaN"
  by (auto simp: le_def)

lemma Math_simps [simp]:
  "Math_max (Num a) (Num b) = Num (max a b)" "Math_min (Num a) (Num b) = Num (min a b)"
  by (auto simp: Math_max_def Math_min_def)

subsection \<open>Strings\<close>

type_synonym jsstring = "nat list"

definition str :: "string \<Rightarrow> jsstring" where
  "str cs = map of_char cs"

definition ESC :: nat where "ESC = 27"

definition BEL :: nat where "BEL = 7"

definition LF :: nat where "LF = 10"

text \<open>\<^verbatim>\<open>WhiteSpace\<close> and \<^verbatim>\<open>LineTerminator\<close> of ECMAScript: what \<^verbatim>\<open>trim\<close> strips.\<close>

definition isWhiteSpace :: "nat \<Rightarrow> bool" where
  "isWhiteSpace c \<longleftrightarrow>
     c = 9 \<or> c = 10 \<or> c = 11 \<or> c = 12 \<or> c = 13 \<or> c = 32 \<or> c = 160 \<or> c = 5760 \<or>
     (8192 \<le> c \<and> c \<le> 8202) \<or> c = 8232 \<or> c = 8233 \<or> c = 8239 \<or> c = 8287 \<or>
     c = 12288 \<or> c = 65279"

definition trimStart :: "jsstring \<Rightarrow> jsstring" where
  "trimStart t = dropWhile isWhiteSpace t"

definition trimEnd :: "jsstring \<Rightarrow> jsstring" where
  "trimEnd t = rev (dropWhile isWhiteSpace (rev t))"

definition trim :: "jsstring \<Rightarrow> jsstring" where
  "trim t = trimEnd (trimStart t)"

subsection \<open>Arrays\<close>

text \<open>
  A JavaScript array: its elements \<open>0 .. length - 1\<close>, where \<open>None\<close> is a hole or
  \<^verbatim>\<open>undefined\<close> (the source cannot tell them apart), and the properties stored under
  the numbers that are not array indices (negative ones, those from \<open>2^32 - 1\<close> on,
  the infinities and NaN). Reading outside the array yields \<^verbatim>\<open>undefined\<close>; writing
  past the end extends it.
\<close>

record 'a jsarray =
  elems :: "'a option list"
  props :: "number \<Rightarrow> 'a option"

definition is_index :: "int \<Rightarrow> bool" where
  "is_index i \<longleftrightarrow> 0 \<le> i \<and> i < 4294967295"

definition array_empty :: "'a jsarray" where
  "array_empty = \<lparr>elems = [], props = (\<lambda>k. None)\<rparr>"

definition array_get :: "'a jsarray \<Rightarrow> number \<Rightarrow> 'a option" where
  "array_get a k =
     (case k of
        Num i \<Rightarrow>
          (if is_index i
           then (if nat i < length (elems a) then elems a ! nat i else None)
           else props a k)
      | _ \<Rightarrow> props a k)"

definition array_set :: "'a jsarray \<Rightarrow> number \<Rightarrow> 'a option \<Rightarrow> 'a jsarray" where
  "array_set a k v =
     (case k of
        Num i \<Rightarrow>
          (if is_index i
           then (if nat i < length (elems a)
                 then a\<lparr>elems := (elems a)[nat i := v]\<rparr>
                 else a\<lparr>elems := elems a @ replicate (nat i - length (elems a)) None @ [v]\<rparr>)
           else a\<lparr>props := (props a)(k := v)\<rparr>)
      | _ \<Rightarrow> a\<lparr>props := (props a)(k := v)\<rparr>)"

text \<open>\<^verbatim>\<open>a.slice(0, n)\<close>: a fresh array; a negative \<open>n\<close> counts from the end.\<close>

definition array_slice0 :: "'a jsarray \<Rightarrow> int \<Rightarrow> 'a jsarray" where
  "array_slice0 a n =
     \<lparr>elems = take (nat (if n < 0 then int (length (elems a)) + n else n)) (elems a),
      props = (\<lambda>k. None)\<rparr>"

text \<open>\<^verbatim>\<open>xs.slice(k)\<close> on an array that is only pushed to and sliced: a list.\<close>

definition slice_from :: "'a list \<Rightarrow> int \<Rightarrow> 'a list" where
  "slice_from xs k = drop (nat (if k < 0 then int (length xs) + k else k)) xs"

subsection \<open>Data model\<close>

record attributes =
  bold :: bool
  dim :: bool
  italic :: bool
  underline :: bool
  blink :: bool
  reverse :: bool
  strikethrough :: bool
  foreground :: int
  background :: int

record cell =
  char :: nat
  cell_attributes :: attributes

type_synonym row = "cell jsarray"

record saved_cursor =
  saved_x :: int
  saved_y :: number
  saved_attributes :: attributes

record entry =
  type :: string
  data :: jsstring

datatype error = TypeError | Error string

record terminal =
  cursorX :: int
  cursorY :: number
  rows :: int
  cols :: int
  scrollTop :: number
  scrollBottom :: number
  wraparound :: bool
  applicationCursor :: bool
  screen :: "row jsarray"
  scrollback :: "row option list"
  attributes :: attributes
  savedCursor :: "saved_cursor option"
  sessionLog :: "entry list"
  replayData :: "entry list"
  isReplaying :: bool
  replayIndex :: nat

definition maxScrollback :: int where "maxScrollback = 10000"

definition tabSize :: int where "tabSize = 8"

definition enableReplay :: bool where "enableReplay = True"

definition enableClipboard :: bool where "enableClipboard = True"

definition maxReplaySize :: int where "maxReplaySize = 1000000"

definition default_attributes :: attributes where
  "default_attributes =
     \<lparr>bold = False, dim = False, italic = False, underline = False, blink = False,
      reverse = False, strikethrough = False, foreground = 7, background = 0\<rparr>"

definition blank :: "attributes \<Rightarrow> cell" where
  "blank a = \<lparr>char = 32, cell_attributes = a\<rparr>"

text \<open>
  The row that \<^verbatim>\<open>this.screen[row] = []\<close> followed by the loop over
  \<open>col = 0 .. cols - 1\<close> builds.
\<close>

definition new_row :: "int \<Rightarrow> attributes \<Rightarrow> row" where
  "new_row n a = fold (\<lambda>col r. array_set r (Num col) (Some (blank a))) [0..n - 1] array_empty"

definition clearRow :: "number \<Rightarrow> terminal \<Rightarrow> terminal" where
  "clearRow r s = s\<lparr>screen := array_set (screen s) r (Some (new_row (cols s) (attributes s)))\<rparr>"

definition initializeScreen :: "terminal \<Rightarrow> terminal" where
  "initializeScreen s = fold clearRow (map Num [0..rows s - 1]) s"

text \<open>The constructor.\<close>

definition fresh :: terminal where
  "fresh = initializeScreen
     \<lparr>cursorX = 0, cursorY = Num 0, rows = 24, cols = 80, scrollTop = Num 0,
      scrollBottom = Num 23, wraparound = True, applicationCursor = False,
      screen = array_empty, scrollback = [], attributes = default_attributes,
      savedCursor = None, sessionLog = [], replayData = [], isReplaying = False,
      replayIndex = 0\<rparr>"

subsection \<open>Scrolling and cursor movement\<close>

text \<open>
  The rows that the loop of \<^verbatim>\<open>scrollUp\<close> visits, from \<^verbatim>\<open>scrollTop\<close> up to below
  \<^verbatim>\<open>scrollBottom\<close>, and the rows that the loop of \<^verbatim>\<open>scrollDown\<close> visits, from
  \<^verbatim>\<open>scrollBottom\<close> down to above \<^verbatim>\<open>scrollTop\<close>. Both loops end: the top of the
  region is \<^verbatim>\<open>Math.max(0, top - 1)\<close>, never negative and never NaN, and the bottom is
  at most \<open>rows - 1\<close>, never \<^verbatim>\<open>Infinity\<close> (lemma \<open>reachable_region\<close> below). From a
  top that is \<^verbatim>\<open>Infinity\<close> neither loop starts, and between a top that is not negative
  and a bottom below \<open>rows\<close> the counter is exact.
\<close>

definition rows_up :: "number \<Rightarrow> number \<Rightarrow> int list" where
  "rows_up tp bt = (case (tp, bt) of (Num t, Num b) \<Rightarrow> [t..b - 1] | _ \<Rightarrow> [])"

definition rows_down :: "number \<Rightarrow> number \<Rightarrow> int list" where
  "rows_down tp bt = (case (tp, bt) of (Num t, Num b) \<Rightarrow> rev [t + 1..b] | _ \<Rightarrow> [])"

definition scrollUp :: "terminal \<Rightarrow> terminal" where
  "scrollUp s =
     (let topLine = array_get (screen s) (scrollTop s);
          pushed = scrollback s @ [topLine];
          kept = (if int (length pushed) > maxScrollback
                  then slice_from pushed (- (maxScrollback div 2)) else pushed);
          moved = fold (\<lambda>r a. array_set a (Num r) (array_get a (Num (r + 1))))
                    (rows_up (scrollTop s) (scrollBottom s)) (screen s)
      in clearRow (scrollBottom s) (s\<lparr>scrollback := kept, screen := moved\<rparr>))"

definition scrollDown :: "terminal \<Rightarrow> terminal" where
  "scrollDown s =
     (let moved = fold (\<lambda>r a. array_set a (Num r) (array_get a (Num (r - 1))))
                    (rows_down (scrollTop s) (scrollBottom s)) (screen s)
      in clearRow (scrollTop s) (s\<lparr>screen := moved\<rparr>))"

definition lineFeed :: "terminal \<Rightarrow> terminal" where
  "lineFeed s =
     (if strict_eq (cursorY s) (scrollBottom s) then scrollUp s
      else s\<lparr>cursorY := add (cursorY s) (Num 1)\<rparr>)"

definition insertCharacter :: "nat \<Rightarrow> terminal \<Rightarrow> error + terminal" where
  "insertCharacter c s =
     (let s1 = (if cursorX s \<ge> cols s
                then (if wraparound s then lineFeed (s\<lparr>cursorX := 0\<rparr>)
                      else s\<lparr>cursorX := cols s - 1\<rparr>)
                else s)
      in case array_get (screen s1) (cursorY s1) of
           None \<Rightarrow> Inl TypeError
         | Some r \<Rightarrow>
             Inr (s1\<lparr>screen := array_set (screen s1) (cursorY s1)
                          (Some (array_set r (Num (cursorX s1))
                             (Some \<lparr>char = c, cell_attributes = attributes s1\<rparr>))),
                      cursorX := cursorX s1 + 1\<rparr>))"

definition tab :: "terminal \<Rightarrow> terminal" where
  "tab s =
     (let nextTabStop = (cursorX s + tabSize) div tabSize * tabSize
      in s\<lparr>cursorX := min nextTabStop (cols s - 1)\<rparr>)"

definition backspace :: "terminal \<Rightarrow> terminal" where
  "backspace s = (if cursorX s > 0 then s\<lparr>cursorX := cursorX s - 1\<rparr> else s)"

definition cursorUp :: "number \<Rightarrow> terminal \<Rightarrow> terminal" where
  "cursorUp n s = s\<lparr>cursorY := Math_max (scrollTop s) (sub (cursorY s) n)\<rparr>"

definition cursorDown :: "number \<Rightarrow> terminal \<Rightarrow> terminal" where
  "cursorDown n s = s\<lparr>cursorY := Math_min (scrollBottom s) (add (cursorY s) n)\<rparr>"

definition cursorRight :: "number \<Rightarrow> terminal \<Rightarrow> terminal" where
  "cursorRight n s =
     s\<lparr>cursorX := int_of (Math_min (Num (cols s - 1)) (offset (cursorX s) n))\<rparr>"

definition cursorLeft :: "number \<Rightarrow> terminal \<Rightarrow> terminal" where
  "cursorLeft n s =
     s\<lparr>cursorX := int_of (Math_max (Num 0) (offset (cursorX s) (negate n)))\<rparr>"

definition setCursorPosition :: "number \<Rightarrow> number \<Rightarrow> terminal \<Rightarrow> terminal" where
  "setCursorPosition r c s =
     s\<lparr>cursorY := Math_max (Num 0) (Math_min (Num (rows s - 1)) (sub r (Num 1))),
       cursorX := int_of (Math_max (Num 0) (Math_min (Num (cols s - 1)) (offset (- 1) c)))\<rparr>"

subsection \<open>Erasing\<close>

text \<open>
  \<^verbatim>\<open>this.screen[row][col] = ...\<close> throws a TypeError when \<^verbatim>\<open>this.screen[row]\<close> is
  undefined, so a loop with at least one iteration fails on a missing row.
\<close>

definition eraseLine :: "number \<Rightarrow> terminal \<Rightarrow> error + terminal" where
  "eraseLine mode s =
     (let r = cursorY s;
          fill = (\<lambda>cs. case array_get (screen s) r of
                     None \<Rightarrow> (if cs = [] then Inr s else Inl TypeError)
                   | Some line \<Rightarrow>
                       Inr (s\<lparr>screen := array_set (screen s) r
                              (Some (fold (\<lambda>col l. array_set l (Num col) (Some (blank (attributes s))))
                                 cs line))\<rparr>))
      in if mode = Num 0 then fill [cursorX s..cols s - 1]
         else if mode = Num 1 then fill [0..cursorX s]
         else if mode = Num 2 then Inr (clearRow r s)
         else Inr s)"

text \<open>
  The loops of \<^verbatim>\<open>eraseDisplay\<close>: \<^verbatim>\<open>for (; row < bound; row++) this.clearRow(row)\<close>.
  The bound of the second one is \<^verbatim>\<open>cursorY\<close>, which is as large as the top of the scroll
  region: the counter never reaches a bound that is \<^verbatim>\<open>Infinity\<close>, and it stops growing
  at \<open>2^53\<close>, where \<^verbatim>\<open>row + 1\<close> rounds to \<^verbatim>\<open>row\<close>.
\<close>

partial_function (option) clearRows :: "number \<Rightarrow> number \<Rightarrow> terminal \<Rightarrow> terminal option" where
  "clearRows row bound s =
     (if lt row bound then clearRows (add row (Num 1)) bound (clearRow row s) else Some s)"

definition eraseDisplay :: "number \<Rightarrow> terminal \<Rightarrow> (error + terminal) option" where
  "eraseDisplay mode s =
     (if mode = Num 0 then
        (case eraseLine (Num 0) s of
           Inl e \<Rightarrow> Some (Inl e)
         | Inr s1 \<Rightarrow> map_option Inr (clearRows (add (cursorY s1) (Num 1)) (Num (rows s1)) s1))
      else if mode = Num 1 then map_option (eraseLine (Num 1)) (clearRows (Num 0) (cursorY s) s)
      else if mode = Num 2 then
        map_option (\<lambda>s1. Inr (setCursorPosition (Num 1) (Num 1) s1))
          (clearRows (Num 0) (Num (rows s)) s)
      else Some (Inr s))"

subsection \<open>Rendition, scroll region, modes, saved cursor\<close>

definition sgr :: "number \<Rightarrow> attributes \<Rightarrow> attributes" where
  "sgr p a =
     (if p = Num 0 then default_attributes
      else if p = Num 1 then a\<lparr>bold := True\<rparr>
      else if p = Num 2 then a\<lparr>dim := True\<rparr>
      else if p = Num 3 then a\<lparr>italic := True\<rparr>
      else if p = Num 4 then a\<lparr>underline := True\<rparr>
      else if p = Num 5 then a\<lparr>blink := True\<rparr>
      else if p = Num 7 then a\<lparr>reverse := True\<rparr>
      else if p = Num 9 then a\<lparr>strikethrough := True\<rparr>
      else if p = Num 22 then a\<lparr>bold := False, dim := False\<rparr>
      else if p = Num 23 then a\<lparr>italic := False\<rparr>
      else if p = Num 24 then a\<lparr>underline := False\<rparr>
      else if p = Num 25 then a\<lparr>blink := False\<rparr>
      else if p = Num 27 then a\<lparr>reverse := False\<rparr>
      else if p = Num 29 then a\<lparr>strikethrough := False\<rparr>
      else if le (Num 30) p \<and> le p (Num 37) then a\<lparr>foreground := int_of (sub p (Num 30))\<rparr>
      else if le (Num 40) p \<and> le p (Num 47) then a\<lparr>background := int_of (sub p (Num 40))\<rparr>
      else a)"

definition setGraphicsRendition :: "number list \<Rightarrow> terminal \<Rightarrow> terminal" where
  "setGraphicsRendition params s =
     (let ps = (if length params = 0 then [Num 0] else params)
      in s\<lparr>attributes := fold sgr ps (attributes s)\<rparr>)"

definition setScrollRegion :: "number \<Rightarrow> number \<Rightarrow> terminal \<Rightarrow> terminal" where
  "setScrollRegion tp bt s =
     setCursorPosition (Num 1) (Num 1)
       (s\<lparr>scrollTop := Math_max (Num 0) (sub tp (Num 1)),
          scrollBottom := Math_min (Num (rows s - 1)) (sub bt (Num 1))\<rparr>)"

definition setMode :: "number list \<Rightarrow> bool \<Rightarrow> terminal \<Rightarrow> terminal" where
  "setMode params enable s =
     fold (\<lambda>p t. if p = Num 1 then t\<lparr>applicationCursor := enable\<rparr> else t) params s"

definition saveCursor :: "terminal \<Rightarrow> terminal" where
  "saveCursor s =
     s\<lparr>savedCursor := Some \<lparr>saved_x = cursorX s, saved_y = cursorY s,
                             saved_attributes = attributes s\<rparr>\<rparr>"

definition restoreCursor :: "terminal \<Rightarrow> terminal" where
  "restoreCursor s =
     (case savedCursor s of
        None \<Rightarrow> s
      | Some c \<Rightarrow> s\<lparr>cursorX := saved_x c, cursorY := saved_y c,
                     attributes := saved_attributes c\<rparr>)"

definition reverseIndex :: "terminal \<Rightarrow> terminal" where
  "reverseIndex s =
     (if strict_eq (cursorY s) (scrollTop s) then scrollDown s
      else s\<lparr>cursorY := sub (cursorY s) (Num 1)\<rparr>)"

definition index :: "terminal \<Rightarrow> terminal" where
  "index s =
     (if strict_eq (cursorY s) (scrollBottom s) then scrollUp s
      else s\<lparr>cursorY := add (cursorY s) (Num 1)\<rparr>)"

definition nextLine :: "terminal \<Rightarrow> terminal" where
  "nextLine s = index (s\<lparr>cursorX := 0\<rparr>)"

subsection \<open>The sequence parser\<close>

definition isParamChar :: "nat \<Rightarrow> bool" where
  "isParamChar c \<longleftrightarrow> (48 \<le> c \<and> c \<le> 57) \<or> c = 59"

text \<open>The loop that collects the parameter string of a CSI sequence.\<close>

function collectParams :: "jsstring \<Rightarrow> nat \<Rightarrow> jsstring \<Rightarrow> jsstring \<times> nat" where
  "collectParams text i paramString =
     (if i < length text \<and> isParamChar (text ! i)
      then collectParams text (i + 1) (paramString @ [text ! i])
      else (paramString, i))"
  by pat_completeness auto
termination
  by (relation "measure (\<lambda>(text, i, p). length text - i)") auto

declare collectParams.simps [simp del]

text \<open>\<^verbatim>\<open>paramString.split(';')\<close>.\<close>

fun split :: "nat \<Rightarrow> jsstring \<Rightarrow> jsstring list" where
  "split sep [] = [[]]"
| "split sep (c # cs) =
     (if c = sep then [] # split sep cs
      else (case split sep cs of [] \<Rightarrow> [[c]] | w # ws \<Rightarrow> (c # w) # ws))"

text \<open>
  \<^verbatim>\<open>parseInt(p) || 0\<close> on a string of decimal digits: the number for the integer that
  the digits write, rounded as V8 rounds it (the standard also lets an implementation read
  the digits after the twentieth as zeros); a string of 309 digits or more parses to
  \<^verbatim>\<open>Infinity\<close>. The empty string parses to NaN, which \<^verbatim>\<open>||\<close> replaces by 0.
\<close>

definition parseInt_or0 :: "jsstring \<Rightarrow> number" where
  "parseInt_or0 p = number_of (foldl (\<lambda>n d. n * 10 + (int d - 48)) 0 p)"

text \<open>\<^verbatim>\<open>params[k] || d\<close>: a missing parameter and a zero give the default.\<close>

definition param_or :: "number list \<Rightarrow> nat \<Rightarrow> number \<Rightarrow> number" where
  "param_or params k d = (if k < length params \<and> \<not> falsy (params ! k) then params ! k else d)"

text \<open>The \<^verbatim>\<open>switch (command)\<close> of \<^verbatim>\<open>processCSISequence\<close>.\<close>

definition csiCommand :: "nat \<Rightarrow> number list \<Rightarrow> terminal \<Rightarrow> (error + terminal) option" where
  "csiCommand command params s =
     (if command = of_char CHR ''A'' then Some (Inr (cursorUp (param_or params 0 (Num 1)) s))
      else if command = of_char CHR ''B'' then Some (Inr (cursorDown (param_or params 0 (Num 1)) s))
      else if command = of_char CHR ''C'' then Some (Inr (cursorRight (param_or params 0 (Num 1)) s))
      else if command = of_char CHR ''D'' then Some (Inr (cursorLeft (param_or params 0 (Num 1)) s))
      else if command = of_char CHR ''H''
        then Some (Inr (setCursorPosition (param_or params 0 (Num 1)) (param_or params 1 (Num 1)) s))
      else if command = of_char CHR ''J'' then eraseDisplay (param_or params 0 (Num 0)) s
      else if command = of_char CHR ''K'' then Some (eraseLine (param_or params 0 (Num 0)) s)
      else if command = of_char CHR ''m'' then Some (Inr (setGraphicsRendition params s))
      else if command = of_char CHR ''r''
        then Some (Inr (setScrollRegion (param_or params 0 (Num 1))
                          (param_or params 1 (Num (rows s))) s))
      else if command = of_char CHR ''s'' then Some (Inr (saveCursor s))
      else if command = of_char CHR ''u'' then Some (Inr (restoreCursor s))
      else if command = of_char CHR ''l'' \<or> command = of_char CHR ''h''
        then Some (Inr (setMode params (command = of_char CHR ''h'') s))
      else Some (Inr s))"

definition processCSISequence ::
  "jsstring \<Rightarrow> nat \<Rightarrow> terminal \<Rightarrow> (error + (nat \<times> terminal)) option" where
  "processCSISequence text startIndex s =
     (case collectParams text startIndex [] of
        (paramString, i) \<Rightarrow>
          if i \<ge> length text then Some (Inr (length text, s))
          else
            (let command = text ! i;
                 params = (if paramString \<noteq> []
                           then map parseInt_or0 (split (of_char CHR '';'') paramString)
                           else [])
             in case csiCommand command params s of
                  None \<Rightarrow> None
                | Some (Inl e) \<Rightarrow> Some (Inl e)
                | Some (Inr s') \<Rightarrow> Some (Inr (i + 1, s'))))"

text \<open>The scan for BEL or ESC-backslash; \<^verbatim>\<open>text[i + 1]\<close> past the end is undefined.\<close>

function oscScan :: "jsstring \<Rightarrow> nat \<Rightarrow> nat" where
  "oscScan text i =
     (if i < length text \<and> text ! i \<noteq> BEL \<and>
         \<not> (text ! i = ESC \<and> i + 1 < length text \<and> text ! (i + 1) = of_char CHR 0x5C)
      then oscScan text (i + 1) else i)"
  by pat_completeness auto
termination
  by (relation "measure (\<lambda>(text, i). length text - i)") auto

declare oscScan.simps [simp del]

definition processOSCSequence :: "jsstring \<Rightarrow> nat \<Rightarrow> nat" where
  "processOSCSequence text startIndex =
     (let i = oscScan text startIndex
      in if i < length text then (if text ! i = BEL then i + 1 else i + 2) else i)"

definition processEscapeSequence ::
  "jsstring \<Rightarrow> nat \<Rightarrow> terminal \<Rightarrow> (error + (nat \<times> terminal)) option" where
  "processEscapeSequence text startIndex s =
     (let i = startIndex + 1
      in if i \<ge> length text then Some (Inr (startIndex + 1, s))
         else
           (let nextChar = text ! i
            in if nextChar = of_char CHR ''['' then processCSISequence text (i + 1) s
               else if nextChar = of_char CHR '']''
                 then Some (Inr (processOSCSequence text (i + 1), s))
               else if nextChar = of_char CHR ''('' then Some (Inr (i + 2, s))
               else
                 Some (Inr (i + 1,
                      if nextChar = of_char CHR ''M'' then reverseIndex s
                      else if nextChar = of_char CHR ''D'' then index s
                      else if nextChar = of_char CHR ''E'' then nextLine s
                      else if nextChar = of_char CHR ''H'' then s
                      else if nextChar = of_char CHR ''7'' then saveCursor s
                      else if nextChar = of_char CHR ''8'' then restoreCursor s
                      else s))))"

text \<open>One iteration of the \<^verbatim>\<open>while\<close> loop of \<^verbatim>\<open>processOutput\<close>, at an index inside the text.\<close>

definition processUnit ::
  "jsstring \<Rightarrow> nat \<Rightarrow> terminal \<Rightarrow> (error + (nat \<times> terminal)) option" where
  "processUnit text i s =
     (let c = text ! i
      in if c = ESC then processEscapeSequence text i s
         else if c = 13 then Some (Inr (i + 1, s\<lparr>cursorX := 0\<rparr>))
         else if c = LF then Some (Inr (i + 1, lineFeed s))
         else if c = 9 then Some (Inr (i + 1, tab s))
         else if c = 8 then Some (Inr (i + 1, backspace s))
         else if c \<ge> 32 then
           (case insertCharacter c s of
              Inl e \<Rightarrow> Some (Inl e)
            | Inr s' \<Rightarrow> Some (Inr (i + 1, s')))
         else Some (Inr (i + 1, s)))"

subsection \<open>Every unit advances the index\<close>

lemma collectParams_index: "collectParams t i p = (q, j) \<Longrightarrow> i \<le> j"
proof (induction t i p arbitrary: q j rule: collectParams.induct)
  case (1 t i paramString)
  show ?case
  proof (cases "i < length t \<and> isParamChar (t ! i)")
    case True
    with "1.prems" have "collectParams t (i + 1) (paramString @ [t ! i]) = (q, j)"
      by (subst (asm) collectParams.simps) simp
    with "1.IH" True have "i + 1 \<le> j" by blast
    then show ?thesis by simp
  next
    case False
    with "1.prems" show ?thesis by (subst (asm) collectParams.simps) auto
  qed
qed

lemma oscScan_index: "i \<le> oscScan t i"
proof (induction t i rule: oscScan.induct)
  case (1 t i)
  show ?case
  proof (cases "i < length t \<and> t ! i \<noteq> BEL \<and>
      \<not> (t ! i = ESC \<and> i + 1 < length t \<and> t ! (i + 1) = of_char CHR 0x5C)")
    case True
    with "1.IH" have "i + 1 \<le> oscScan t (i + 1)" by blast
    moreover from True have "oscScan t i = oscScan t (i + 1)"
      by (subst oscScan.simps) simp
    ultimately show ?thesis by simp
  next
    case False
    then have "oscScan t i = i" by (subst oscScan.simps) auto
    then show ?thesis by simp
  qed
qed

lemma processOSCSequence_index: "i \<le> processOSCSequence t i"
  using oscScan_index [of i t] by (simp add: processOSCSequence_def Let_def)

lemma processCSISequence_index:
  assumes "processCSISequence t st s = Some (Inr (j, s'))" and "st \<le> length t"
  shows "st \<le> j"
proof -
  obtain q i where c: "collectParams t st [] = (q, i)" by (cases "collectParams t st []")
  then have "st \<le> i" by (rule collectParams_index)
  with assms c show ?thesis
    by (auto simp: processCSISequence_def Let_def split: if_splits sum.splits option.splits)
qed

lemma processEscapeSequence_index:
  assumes "processEscapeSequence t i s = Some (Inr (j, s'))"
  shows "i < j"
proof (cases "i + 1 \<ge> length t")
  case True
  with assms show ?thesis by (simp add: processEscapeSequence_def)
next
  case False
  show ?thesis
  proof (cases "t ! (i + 1) = of_char CHR ''[''")
    case True
    with assms False have "processCSISequence t (i + 2) s = Some (Inr (j, s'))"
      by (simp add: processEscapeSequence_def)
    moreover from False have "i + 2 \<le> length t" by simp
    ultimately have "i + 2 \<le> j" by (rule processCSISequence_index)
    then show ?thesis by simp
  next
    case nocsi: False
    show ?thesis
    proof (cases "t ! (i + 1) = of_char CHR '']''")
      case True
      with assms False have "j = processOSCSequence t (i + 2)"
        by (simp add: processEscapeSequence_def)
      with processOSCSequence_index [of "i + 2" t] show ?thesis by simp
    next
      case noosc: False
      show ?thesis
      proof (cases "t ! (i + 1) = of_char CHR ''(''")
        case True
        with assms nocsi noosc \<open>\<not> i + 1 \<ge> length t\<close> show ?thesis
          by (simp add: processEscapeSequence_def)
      next
        case False
        with assms nocsi noosc \<open>\<not> i + 1 \<ge> length t\<close> show ?thesis
          by (simp add: processEscapeSequence_def Let_def)
      qed
    qed
  qed
qed

lemma processUnit_index:
  assumes "processUnit t i s = Some (Inr (j, s'))"
  shows "i < j"
proof (cases "t ! i = ESC")
  case True
  with assms have "processEscapeSequence t i s = Some (Inr (j, s'))"
    by (simp add: processUnit_def)
  then show ?thesis by (rule processEscapeSequence_index)
next
  case False
  with assms show ?thesis
    by (auto simp: processUnit_def Let_def split: if_splits sum.splits)
qed

subsection \<open>Writing\<close>

text \<open>
  The loop of \<^verbatim>\<open>processOutput\<close>. It ends because every unit advances the index; the
  write does not return when a unit does not.
\<close>

function processOutput_loop :: "jsstring \<Rightarrow> nat \<Rightarrow> terminal \<Rightarrow> (error + terminal) option" where
  "processOutput_loop text i s =
     (if i < length text
      then (case processUnit text i s of
              None \<Rightarrow> None
            | Some (Inl e) \<Rightarrow> Some (Inl e)
            | Some (Inr (j, s')) \<Rightarrow> processOutput_loop text j s')
      else Some (Inr s))"
  by pat_completeness auto
termination
  by (relation "measure (\<lambda>(text, i, s). length text - i)")
     (auto dest: processUnit_index)

declare processOutput_loop.simps [simp del]

definition processOutput :: "jsstring \<Rightarrow> terminal \<Rightarrow> (error + terminal) option" where
  "processOutput text s = processOutput_loop text 0 s"

definition addToReplayLog :: "string \<Rightarrow> jsstring \<Rightarrow> terminal \<Rightarrow> terminal" where
  "addToReplayLog ty d s =
     (let l = sessionLog s @ [\<lparr>type = ty, data = d\<rparr>]
      in s\<lparr>sessionLog := (if int (length l) > maxReplaySize
                           then slice_from l (- (maxReplaySize div 2)) else l)\<rparr>)"

text \<open>The method \<^verbatim>\<open>write\<close>; its return value, the byte count of the data, is not modelled.\<close>

definition write' :: "jsstring \<Rightarrow> terminal \<Rightarrow> (error + terminal) option" where
  "write' d s =
     processOutput d
       (if enableReplay \<and> \<not> isReplaying s then addToReplayLog ''output'' d s else s)"

subsection \<open>Resize\<close>

text \<open>A loop whose body can throw: the first exception ends it.\<close>

fun forEach :: "('a \<Rightarrow> 'b \<Rightarrow> error + 'b) \<Rightarrow> 'a list \<Rightarrow> 'b \<Rightarrow> error + 'b" where
  "forEach f [] b = Inr b"
| "forEach f (x # xs) b = (case f x b of Inl e \<Rightarrow> Inl e | Inr b' \<Rightarrow> forEach f xs b')"

text \<open>The body of the loop that adjusts the width of the rows that existed before.\<close>

definition adjustColumns :: "int \<Rightarrow> int \<Rightarrow> attributes \<Rightarrow> int \<Rightarrow> row jsarray \<Rightarrow> error + row jsarray" where
  "adjustColumns oldCols newCols a r scr =
     (if newCols > oldCols then
        (case array_get scr (Num r) of
           None \<Rightarrow> Inl TypeError
         | Some line \<Rightarrow>
             Inr (array_set scr (Num r)
                    (Some (fold (\<lambda>col l. array_set l (Num col) (Some (blank a)))
                             [oldCols..newCols - 1] line))))
      else if newCols < oldCols then
        (case array_get scr (Num r) of
           None \<Rightarrow> Inl TypeError
         | Some line \<Rightarrow> Inr (array_set scr (Num r) (Some (array_slice0 line newCols))))
      else Inr scr)"

definition resize :: "int \<Rightarrow> int \<Rightarrow> terminal \<Rightarrow> error + terminal" where
  "resize newRows newCols s =
     (let oldRows = rows s;
          oldCols = cols s;
          s1 = s\<lparr>rows := newRows, cols := newCols, scrollBottom := Num (newRows - 1)\<rparr>;
          s2 = (if newRows > oldRows then
                  s1\<lparr>screen := fold (\<lambda>r scr. array_set scr (Num r)
                                           (Some (new_row newCols (attributes s))))
                                  [oldRows..newRows - 1] (screen s)\<rparr>
                else if newRows < oldRows then
                  s1\<lparr>scrollback := scrollback s @
                         filter (\<lambda>line. line \<noteq> None)
                           (map (\<lambda>r. array_get (screen s) (Num r)) [newRows..oldRows - 1]),
                      screen := array_slice0 (screen s) newRows\<rparr>
                else s1)
      in case forEach (adjustColumns oldCols newCols (attributes s))
                [0..min newRows oldRows - 1] (screen s2) of
           Inl e \<Rightarrow> Inl e
         | Inr scr \<Rightarrow>
             Inr (s2\<lparr>screen := scr,
                      cursorX := min (cursorX s) (newCols - 1),
                      cursorY := Math_min (cursorY s) (Num (newRows - 1))\<rparr>))"

subsection \<open>Replay\<close>

definition startReplay :: "entry list \<Rightarrow> terminal \<Rightarrow> error + terminal" where
  "startReplay d s =
     (if \<not> enableReplay then Inl (Error ''Replay is disabled'')
      else Inr ((initializeScreen (s\<lparr>isReplaying := True, replayIndex := 0, replayData := d\<rparr>))
                  \<lparr>cursorX := 0, cursorY := Num 0\<rparr>))"

definition stepReplay :: "terminal \<Rightarrow> (error + (bool \<times> terminal)) option" where
  "stepReplay s =
     (if \<not> isReplaying s \<or> replayIndex s \<ge> length (replayData s) then Some (Inr (False, s))
      else
        (let entry = replayData s ! replayIndex s
         in case (if type entry = ''output'' then write' (data entry) s else Some (Inr s)) of
              None \<Rightarrow> None
            | Some (Inl e) \<Rightarrow> Some (Inl e)
            | Some (Inr s') \<Rightarrow>
                Some (Inr (replayIndex s' + 1 < length (replayData s'),
                           s'\<lparr>replayIndex := replayIndex s' + 1\<rparr>))))"

definition stopReplay :: "terminal \<Rightarrow> terminal" where
  "stopReplay s = s\<lparr>isReplaying := False, replayIndex := 0\<rparr>"

text \<open>
  A write assigns none of the fields collected in \<open>frame\<close>; this is what makes the
  caller's replay loop terminate.
\<close>

lemma clearRow_fields [simp]:
  "cols (clearRow r s) = cols s" "rows (clearRow r s) = rows s"
  "attributes (clearRow r s) = attributes s" "cursorX (clearRow r s) = cursorX s"
  "cursorY (clearRow r s) = cursorY s" "scrollTop (clearRow r s) = scrollTop s"
  "scrollBottom (clearRow r s) = scrollBottom s" "scrollback (clearRow r s) = scrollback s"
  "savedCursor (clearRow r s) = savedCursor s" "sessionLog (clearRow r s) = sessionLog s"
  "replayData (clearRow r s) = replayData s" "isReplaying (clearRow r s) = isReplaying s"
  "replayIndex (clearRow r s) = replayIndex s" "wraparound (clearRow r s) = wraparound s"
  "applicationCursor (clearRow r s) = applicationCursor s"
  by (simp_all add: clearRow_def)

lemma fold_clearRow_fields [simp]:
  "cols (fold clearRow rs s) = cols s" "rows (fold clearRow rs s) = rows s"
  "attributes (fold clearRow rs s) = attributes s" "cursorX (fold clearRow rs s) = cursorX s"
  "cursorY (fold clearRow rs s) = cursorY s" "scrollTop (fold clearRow rs s) = scrollTop s"
  "scrollBottom (fold clearRow rs s) = scrollBottom s" "scrollback (fold clearRow rs s) = scrollback s"
  "savedCursor (fold clearRow rs s) = savedCursor s" "sessionLog (fold clearRow rs s) = sessionLog s"
  "replayData (fold clearRow rs s) = replayData s" "isReplaying (fold clearRow rs s) = isReplaying s"
  "replayIndex (fold clearRow rs s) = replayIndex s" "wraparound (fold clearRow rs s) = wraparound s"
  "applicationCursor (fold clearRow rs s) = applicationCursor s"
  by (induction rs arbitrary: s; simp)+

lemma scrollUp_fields [simp]:
  "cursorX (scrollUp s) = cursorX s" "cursorY (scrollUp s) = cursorY s"
  "rows (scrollUp s) = rows s" "cols (scrollUp s) = cols s"
  "scrollTop (scrollUp s) = scrollTop s" "scrollBottom (scrollUp s) = scrollBottom s"
  "attributes (scrollUp s) = attributes s" "savedCursor (scrollUp s) = savedCursor s"
  "sessionLog (scrollUp s) = sessionLog s" "replayData (scrollUp s) = replayData s"
  "isReplaying (scrollUp s) = isReplaying s" "replayIndex (scrollUp s) = replayIndex s"
  "wraparound (scrollUp s) = wraparound s" "applicationCursor (scrollUp s) = applicationCursor s"
  by (simp_all add: scrollUp_def Let_def)

lemma scrollDown_fields [simp]:
  "cursorX (scrollDown s) = cursorX s" "cursorY (scrollDown s) = cursorY s"
  "rows (scrollDown s) = rows s" "cols (scrollDown s) = cols s"
  "scrollTop (scrollDown s) = scrollTop s" "scrollBottom (scrollDown s) = scrollBottom s"
  "attributes (scrollDown s) = attributes s" "savedCursor (scrollDown s) = savedCursor s"
  "sessionLog (scrollDown s) = sessionLog s" "replayData (scrollDown s) = replayData s"
  "isReplaying (scrollDown s) = isReplaying s" "replayIndex (scrollDown s) = replayIndex s"
  "wraparound (scrollDown s) = wraparound s" "applicationCursor (scrollDown s) = applicationCursor s"
  "scrollback (scrollDown s) = scrollback s"
  by (simp_all add: scrollDown_def Let_def)

lemma setMode_fields [simp]:
  "cursorX (setMode ps e s) = cursorX s" "cursorY (setMode ps e s) = cursorY s"
  "rows (setMode ps e s) = rows s" "cols (setMode ps e s) = cols s"
  "scrollTop (setMode ps e s) = scrollTop s" "scrollBottom (setMode ps e s) = scrollBottom s"
  "attributes (setMode ps e s) = attributes s" "savedCursor (setMode ps e s) = savedCursor s"
  "sessionLog (setMode ps e s) = sessionLog s" "replayData (setMode ps e s) = replayData s"
  "isReplaying (setMode ps e s) = isReplaying s" "replayIndex (setMode ps e s) = replayIndex s"
  "wraparound (setMode ps e s) = wraparound s" "screen (setMode ps e s) = screen s"
  "scrollback (setMode ps e s) = scrollback s"
  unfolding setMode_def by (induction ps arbitrary: s; simp)+

lemma addToReplayLog_fields [simp]:
  "cursorX (addToReplayLog ty d s) = cursorX s" "cursorY (addToReplayLog ty d s) = cursorY s"
  "rows (addToReplayLog ty d s) = rows s" "cols (addToReplayLog ty d s) = cols s"
  "scrollTop (addToReplayLog ty d s) = scrollTop s" "scrollBottom (addToReplayLog ty d s) = scrollBottom s"
  "attributes (addToReplayLog ty d s) = attributes s" "savedCursor (addToReplayLog ty d s) = savedCursor s"
  "screen (addToReplayLog ty d s) = screen s" "scrollback (addToReplayLog ty d s) = scrollback s"
  "replayData (addToReplayLog ty d s) = replayData s"
  "isReplaying (addToReplayLog ty d s) = isReplaying s" "replayIndex (addToReplayLog ty d s) = replayIndex s"
  "wraparound (addToReplayLog ty d s) = wraparound s" "applicationCursor (addToReplayLog ty d s) = applicationCursor s"
  by (simp_all add: addToReplayLog_def Let_def)

text \<open>The fields that processing a text never assigns.\<close>

definition frame ::
  "terminal \<Rightarrow> entry list \<times> entry list \<times> nat \<times> bool \<times> int \<times> int \<times> bool" where
  "frame s = (sessionLog s, replayData s, replayIndex s, isReplaying s, rows s, cols s, wraparound s)"

lemma frame_simple [simp]:
  "frame (clearRow r s) = frame s" "frame (fold clearRow rs s) = frame s"
  "frame (scrollUp s) = frame s" "frame (scrollDown s) = frame s"
  "frame (setMode ps e s) = frame s"
  "frame (lineFeed s) = frame s" "frame (index s) = frame s" "frame (reverseIndex s) = frame s"
  "frame (nextLine s) = frame s" "frame (tab s) = frame s" "frame (backspace s) = frame s"
  "frame (cursorUp n s) = frame s" "frame (cursorDown n s) = frame s"
  "frame (cursorLeft n s) = frame s" "frame (cursorRight n s) = frame s"
  "frame (setCursorPosition y x s) = frame s" "frame (setGraphicsRendition ps s) = frame s"
  "frame (setScrollRegion tp bt s) = frame s" "frame (saveCursor s) = frame s"
  "frame (restoreCursor s) = frame s"
  by (simp_all add: frame_def lineFeed_def index_def reverseIndex_def nextLine_def tab_def
      backspace_def cursorUp_def cursorDown_def cursorLeft_def cursorRight_def
      setCursorPosition_def setGraphicsRendition_def setScrollRegion_def saveCursor_def
      restoreCursor_def Let_def split: option.splits)

lemma frame_cursorX [simp]: "frame (s\<lparr>cursorX := x\<rparr>) = frame s"
  by (simp add: frame_def)

lemma insertCharacter_frame: "insertCharacter c s = Inr s' \<Longrightarrow> frame s' = frame s"
  by (auto simp: insertCharacter_def Let_def frame_def lineFeed_def split: option.splits if_splits)

lemma eraseLine_frame: "eraseLine mode s = Inr s' \<Longrightarrow> frame s' = frame s"
  by (auto simp: eraseLine_def Let_def frame_def clearRow_def split: option.splits if_splits)

lemma clearRows_induct [consumes 1, case_names stop step]:
  assumes "clearRows a b s = Some s'"
    and "\<And>a b s. \<not> lt a b \<Longrightarrow> P a b s s"
    and "\<And>a b s s'. lt a b \<Longrightarrow> P (add a (Num 1)) b (clearRow a s) s' \<Longrightarrow> P a b s s'"
  shows "P a b s s'"
  by (rule clearRows.raw_induct [OF _ assms(1)]) (auto split: if_splits intro: assms(2,3))

lemma clearRows_frame: "clearRows a b s = Some s' \<Longrightarrow> frame s' = frame s"
  by (induction rule: clearRows_induct) simp_all

lemma eraseDisplay_frame: "eraseDisplay mode s = Some (Inr s') \<Longrightarrow> frame s' = frame s"
  by (auto simp: eraseDisplay_def split: if_splits sum.splits
      dest!: eraseLine_frame clearRows_frame)

lemma csiCommand_frame: "csiCommand c ps s = Some (Inr s') \<Longrightarrow> frame s' = frame s"
  unfolding csiCommand_def
  by (auto split: if_splits dest: eraseLine_frame eraseDisplay_frame)

lemma processCSISequence_frame:
  "processCSISequence t st s = Some (Inr (j, s')) \<Longrightarrow> frame s' = frame s"
  by (auto simp: processCSISequence_def Let_def split: prod.splits if_splits sum.splits option.splits
      dest: csiCommand_frame)

lemma processEscapeSequence_frame:
  assumes "processEscapeSequence t i s = Some (Inr (j, s'))"
  shows "frame s' = frame s"
proof (cases "i + 1 \<ge> length t")
  case True
  with assms show ?thesis by (simp add: processEscapeSequence_def)
next
  case False
  show ?thesis
  proof (cases "t ! (i + 1) = of_char CHR ''[''")
    case True
    with assms False show ?thesis
      by (auto simp: processEscapeSequence_def dest: processCSISequence_frame)
  next
    case nocsi: False
    have "frame (if c = of_char CHR ''M'' then reverseIndex s
                 else if c = of_char CHR ''D'' then index s
                 else if c = of_char CHR ''E'' then nextLine s
                 else if c = of_char CHR ''H'' then s
                 else if c = of_char CHR ''7'' then saveCursor s
                 else if c = of_char CHR ''8'' then restoreCursor s
                 else s) = frame s" for c :: nat
      by simp
    with assms False nocsi show ?thesis
      by (auto simp: processEscapeSequence_def Let_def split: if_splits)
  qed
qed

lemma processUnit_frame:
  assumes "processUnit t i s = Some (Inr (j, s'))"
  shows "frame s' = frame s"
proof (cases "t ! i = ESC")
  case True
  with assms show ?thesis by (auto simp: processUnit_def dest: processEscapeSequence_frame)
next
  case False
  with assms show ?thesis
    by (auto simp: processUnit_def Let_def split: if_splits sum.splits dest: insertCharacter_frame)
qed

lemma processOutput_loop_frame:
  "processOutput_loop t i s = Some (Inr s') \<Longrightarrow> frame s' = frame s"
proof (induction t i s rule: processOutput_loop.induct)
  case (1 t i s)
  show ?case
  proof (cases "i < length t")
    case False
    with "1.prems" show ?thesis by (subst (asm) processOutput_loop.simps) simp
  next
    case True
    with "1.prems" obtain j s1 where u: "processUnit t i s = Some (Inr (j, s1))"
      and l: "processOutput_loop t j s1 = Some (Inr s')"
      by (subst (asm) processOutput_loop.simps) (auto split: sum.splits option.splits)
    from "1.IH" [OF True u refl refl l] processUnit_frame [OF u] show ?thesis by simp
  qed
qed

lemma write'_frame:
  assumes "write' d s = Some (Inr s')"
  shows "replayData s' = replayData s" "replayIndex s' = replayIndex s"
    "isReplaying s' = isReplaying s" "rows s' = rows s" "cols s' = cols s"
    "wraparound s' = wraparound s"
    "sessionLog s' = sessionLog (if enableReplay \<and> \<not> isReplaying s then addToReplayLog ''output'' d s else s)"
  using processOutput_loop_frame [of d 0 _ s'] assms
  by (auto simp: write'_def processOutput_def frame_def split: if_splits)

lemma stepReplay_more:
  assumes "stepReplay s = Some (Inr (True, s'))"
  shows "length (replayData s') - replayIndex s' < length (replayData s) - replayIndex s"
proof -
  from assms have a: "isReplaying s" "replayIndex s < length (replayData s)"
    by (auto simp: stepReplay_def split: if_splits)
  let ?e = "replayData s ! replayIndex s"
  show ?thesis
  proof (cases "type ?e = ''output''")
    case True
    with assms a obtain s1 where w: "write' (data ?e) s = Some (Inr s1)"
      and s': "s' = s1\<lparr>replayIndex := replayIndex s1 + 1\<rparr>"
      by (auto simp: stepReplay_def Let_def split: sum.splits option.splits)
    from write'_frame(1,2) [OF w] s' a show ?thesis by simp
  next
    case False
    with assms a show ?thesis by (auto simp: stepReplay_def Let_def)
  qed
qed

text \<open>The caller's loop: \<^verbatim>\<open>stepReplay\<close> is called until it returns false.\<close>

function replay_to_end :: "terminal \<Rightarrow> (error + terminal) option" where
  "replay_to_end s =
     (case stepReplay s of
        None \<Rightarrow> None
      | Some (Inl e) \<Rightarrow> Some (Inl e)
      | Some (Inr (again, s1)) \<Rightarrow> if again then replay_to_end s1 else Some (Inr s1))"
  by pat_completeness auto
termination
  by (relation "measure (\<lambda>s. length (replayData s) - replayIndex s)")
     (auto dest: stepReplay_more)

declare replay_to_end.simps [simp del]

subsection \<open>Text extraction\<close>

text \<open>The inner loop of both extractors: the characters of the cells that exist.\<close>

definition lineText :: "terminal \<Rightarrow> int \<Rightarrow> int list \<Rightarrow> jsstring" where
  "lineText s r cs =
     fold (\<lambda>col t. case array_get (screen s) (Num r) of
                      None \<Rightarrow> t
                    | Some line \<Rightarrow>
                        (case array_get line (Num col) of None \<Rightarrow> t | Some c \<Rightarrow> t @ [char c]))
       cs []"

definition copySelection :: "int \<Rightarrow> int \<Rightarrow> int \<Rightarrow> int \<Rightarrow> terminal \<Rightarrow> error + jsstring" where
  "copySelection startRow startCol endRow endCol s =
     (if \<not> enableClipboard then Inl (Error ''Clipboard is disabled'')
      else
        Inr (trim
          (fold (\<lambda>r t.
                   let startColForRow = (if r = startRow then startCol else 0);
                       endColForRow = (if r = endRow then endCol else cols s - 1)
                   in t @ lineText s r [startColForRow..endColForRow] @
                      (if r < endRow then [LF] else []))
             [startRow..endRow] [])))"

definition getScreenText :: "terminal \<Rightarrow> jsstring" where
  "getScreenText s =
     fold (\<lambda>r t. t @ trimEnd (lineText s r [0..cols s - 1]) @
                    (if r < rows s - 1 then [LF] else []))
       [0..rows s - 1] []"

subsection \<open>Sequences of operations\<close>

datatype operation = Write jsstring | Resize int int

fun perform :: "operation \<Rightarrow> terminal \<Rightarrow> (error + terminal) option" where
  "perform (Write d) s = write' d s"
| "perform (Resize r c) s = Some (resize r c s)"

text \<open>
  The state after the operations of a sequence; an exception ends the sequence, and so
  does an operation that does not return.
\<close>

fun run :: "operation list \<Rightarrow> terminal \<Rightarrow> (error + terminal) option" where
  "run [] s = Some (Inr s)"
| "run (x # xs) s =
     (case perform x s of
        None \<Rightarrow> None
      | Some (Inl e) \<Rightarrow> Some (Inl e)
      | Some (Inr s') \<Rightarrow> run xs s')"

section \<open>Predicates, relations and sample sessions of the statements below\<close>

text \<open>
  An escape sequence that the text ends inside: a lone ESC, a CSI sequence with only
  parameter characters up to the end, an OSC sequence with no terminator, or a
  charset selection with no identifier.
\<close>

definition incomplete :: "jsstring \<Rightarrow> nat \<Rightarrow> bool" where
  "incomplete text i \<longleftrightarrow>
     i < length text \<and> text ! i = ESC \<and>
     (i + 1 = length text \<or>
      (i + 1 < length text \<and> text ! (i + 1) = of_char CHR ''['' \<and>
         list_all isParamChar (drop (i + 2) text)) \<or>
      (i + 1 < length text \<and> text ! (i + 1) = of_char CHR '']'' \<and>
         (\<forall>k \<in> {i + 2..<length text}. text ! k \<noteq> BEL \<and>
            \<not> (text ! k = ESC \<and> k + 1 < length text \<and> text ! (k + 1) = of_char CHR 0x5C))) \<or>
      (i + 2 = length text \<and> text ! (i + 1) = of_char CHR ''(''))"

text \<open>
  The invariant of the screen buffer and the cursor. A grid has at least one row and one
  column and every row index below \<open>rows\<close> holds a row. The cursor column may equal
  \<open>cols\<close>: \<open>insertCharacter\<close> advances the column after storing a cell and wraps only
  at the next insertion.
\<close>

definition rows_ok :: "nat \<Rightarrow> 'a jsarray \<Rightarrow> bool" where
  "rows_ok n a \<longleftrightarrow> length (elems a) = n \<and> None \<notin> set (elems a)"

definition grid :: "terminal \<Rightarrow> bool" where
  "grid s \<longleftrightarrow> 1 \<le> rows s \<and> rows s \<le> 4294967295 \<and> 1 \<le> cols s \<and>
     rows_ok (nat (rows s)) (screen s)"

definition cursor_ok :: "terminal \<Rightarrow> bool" where
  "cursor_ok s \<longleftrightarrow> 0 \<le> cursorX s \<and> cursorX s \<le> cols s \<and>
     le (Num 0) (cursorY s) \<and> lt (cursorY s) (Num (rows s))"

definition saved_ok :: "terminal \<Rightarrow> bool" where
  "saved_ok s \<longleftrightarrow>
     (case savedCursor s of
        None \<Rightarrow> True
      | Some c \<Rightarrow> 0 \<le> saved_x c \<and> saved_x c \<le> cols s \<and>
                  le (Num 0) (saved_y c) \<and> lt (saved_y c) (Num (rows s)))"

definition region_full :: "terminal \<Rightarrow> bool" where
  "region_full s \<longleftrightarrow> scrollTop s = Num 0 \<and> scrollBottom s = Num (rows s - 1)"

text \<open>
  What the loops of \<open>scrollUp\<close> and \<open>scrollDown\<close> rely on: the top of the scroll
  region is not negative and not NaN, and the bottom is below \<^verbatim>\<open>Infinity\<close>.
\<close>

definition region_sound :: "terminal \<Rightarrow> bool" where
  "region_sound s \<longleftrightarrow> le (Num 0) (scrollTop s) \<and> lt (scrollBottom s) Infinity"

definition tidy :: "terminal \<Rightarrow> bool" where
  "tidy s \<longleftrightarrow> grid s \<and> cursor_ok s \<and> saved_ok s"




text \<open>
  What a row and the screen show: the character of every cell that exists. As far as
  reads and writes by index go, an array is the function from keys to values.
\<close>

definition row_glyph :: "row \<Rightarrow> number \<Rightarrow> nat option" where
  "row_glyph line = (\<lambda>col. map_option char (array_get line col))"

definition glyph :: "terminal \<Rightarrow> number \<Rightarrow> (number \<Rightarrow> nat option) option" where
  "glyph s k = map_option row_glyph (array_get (screen s) k)"

definition blank_glyph :: "int \<Rightarrow> number \<Rightarrow> nat option" where
  "blank_glyph n =
     (\<lambda>col. case col of
              Num c \<Rightarrow> if 0 \<le> c \<and> c < n then Some 32 else None
            | _ \<Rightarrow> None)"

definition visible :: "terminal \<Rightarrow> bool" where
  "visible s \<longleftrightarrow> le (Num 0) (scrollTop s) \<and> le (scrollBottom s) (Num (rows s - 1)) \<and>
     (\<forall>k. 0 \<le> k \<and> k < rows s \<longrightarrow> glyph s (Num k) \<noteq> None)"

definition saved_position :: "terminal \<Rightarrow> (int \<times> number) option" where
  "saved_position s = map_option (\<lambda>c. (saved_x c, saved_y c)) (savedCursor s)"

text \<open>
  The second terminal shows what the first one shows: the same cursor, size, scroll
  region and saved position, and the same characters in every row that the first one
  has. Pen, scrollback, logs and replay state are not compared.
\<close>

definition sim :: "terminal \<Rightarrow> terminal \<Rightarrow> bool" where
  "sim s1 s2 \<longleftrightarrow>
     cursorX s1 = cursorX s2 \<and> cursorY s1 = cursorY s2 \<and> rows s1 = rows s2 \<and> cols s1 = cols s2 \<and>
     scrollTop s1 = scrollTop s2 \<and> scrollBottom s1 = scrollBottom s2 \<and>
     wraparound s1 = wraparound s2 \<and> saved_position s1 = saved_position s2 \<and>
     (\<forall>k. glyph s1 k \<noteq> None \<longrightarrow> glyph s2 k = glyph s1 k) \<and> visible s1"

definition sim_result :: "error + terminal \<Rightarrow> error + terminal \<Rightarrow> bool" where
  "sim_result r1 r2 \<longleftrightarrow> (\<forall>s1. r1 = Inr s1 \<longrightarrow> (\<exists>s2. r2 = Inr s2 \<and> sim s1 s2))"

text \<open>The two loops of \<open>eraseLine\<close> over a range of columns.\<close>

definition eraseCells :: "int list \<Rightarrow> terminal \<Rightarrow> error + terminal" where
  "eraseCells cs s =
     (case array_get (screen s) (cursorY s) of
        None \<Rightarrow> (if cs = [] then Inr s else Inl TypeError)
      | Some line \<Rightarrow>
          Inr (s\<lparr>screen := array_set (screen s) (cursorY s)
                 (Some (fold (\<lambda>col l. array_set l (Num col) (Some (blank (attributes s))))
                          cs line))\<rparr>))"

text \<open>The entry that \<open>write\<close> appends to the session log.\<close>

definition output_entry :: "jsstring \<Rightarrow> entry" where
  "output_entry d = \<lparr>type = ''output'', data = d\<rparr>"

text \<open>
  The integers from \<open>-2^53\<close> to \<open>2^53\<close>: what a counter that starts among them and
  grows by one holds, since \<open>2^53 + 1\<close> rounds to \<open>2^53\<close>.
\<close>

definition within :: "number \<Rightarrow> bool" where
  "within a \<longleftrightarrow>
     (case a of Num x \<Rightarrow> - 9007199254740992 \<le> x \<and> x \<le> 9007199254740992 | _ \<Rightarrow> False)"

subsection \<open>Sample sessions\<close>

text \<open>
  A terminal with a bold, underlined pen, red on blue, and the scroll region at rows 4
  to 9.
\<close>

definition styled :: terminal where
  "styled = (case write' ([ESC] @ str ''[1;4;31;44m'' @ [ESC] @ str ''[5;10r'') fresh of
               Some (Inr s) \<Rightarrow> s | _ \<Rightarrow> fresh)"


text \<open>A write that restores the cursor before it prints and saves it afterwards.\<close>

definition restore_first :: jsstring where
  "restore_first = [ESC] @ str ''8X'' @ [ESC] @ str ''[5C'' @ [ESC] @ str ''7''"

text \<open>
  A write that sets the top of the scroll region from a parameter of 309 digits, moves
  the cursor up and erases the display from its beginning to the cursor.
\<close>

definition erase_above_endless :: jsstring where
  "erase_above_endless =
     [ESC] @ str ''['' @ replicate 309 (of_char CHR ''9'') @ str ''r'' @
     [ESC] @ str ''[A'' @ [ESC] @ str ''[1J''"

section \<open>Parser progress\<close>

lemma collectParams_all:
  "list_all isParamChar (drop i t) \<Longrightarrow> i \<le> length t \<Longrightarrow> snd (collectParams t i p) = length t"
proof (induction t i p rule: collectParams.induct)
  case (1 t i p)
  show ?case
  proof (cases "i < length t")
    case True
    with "1.prems" have pc: "isParamChar (t ! i)" and rest: "list_all isParamChar (drop (i + 1) t)"
      by (simp_all add: Cons_nth_drop_Suc [symmetric])
    with True "1.IH" have "snd (collectParams t (i + 1) (p @ [t ! i])) = length t" by simp
    with True pc show ?thesis by (subst collectParams.simps) simp
  next
    case False
    with "1.prems" show ?thesis by (subst collectParams.simps) simp
  qed
qed

lemma oscScan_none:
  assumes "\<forall>k \<in> {i..<length t}. t ! k \<noteq> BEL \<and>
            \<not> (t ! k = ESC \<and> k + 1 < length t \<and> t ! (k + 1) = of_char CHR 0x5C)"
    and "i \<le> length t"
  shows "oscScan t i = length t"
  using assms
proof (induction t i rule: oscScan.induct)
  case (1 t i)
  show ?case
  proof (cases "i < length t")
    case True
    with "1.prems" have c: "t ! i \<noteq> BEL \<and>
        \<not> (t ! i = ESC \<and> i + 1 < length t \<and> t ! (i + 1) = of_char CHR 0x5C)"
      by simp
    with True "1.IH" "1.prems" have "oscScan t (i + 1) = length t" by simp
    with True c show ?thesis by (subst oscScan.simps) simp
  next
    case False
    with "1.prems" show ?thesis by (subst oscScan.simps) simp
  qed
qed

lemma processUnit_incomplete:
  assumes "incomplete t i"
  shows "\<exists>j \<ge> length t. processUnit t i s = Some (Inr (j, s))"
proof -
  from assms have i: "i < length t" and esc: "t ! i = ESC" by (simp_all add: incomplete_def)
  then have u: "processUnit t i s = processEscapeSequence t i s" by (simp add: processUnit_def)
  consider (a) "i + 1 = length t"
    | (b) "i + 1 < length t" "t ! (i + 1) = of_char CHR ''[''" "list_all isParamChar (drop (i + 2) t)"
    | (c) "i + 1 < length t" "t ! (i + 1) = of_char CHR '']''"
          "\<forall>k \<in> {i + 2..<length t}. t ! k \<noteq> BEL \<and>
            \<not> (t ! k = ESC \<and> k + 1 < length t \<and> t ! (k + 1) = of_char CHR 0x5C)"
    | (d) "i + 2 = length t" "t ! (i + 1) = of_char CHR ''(''"
    using assms unfolding incomplete_def by blast
  then show ?thesis
  proof cases
    case a
    then show ?thesis by (simp add: u processEscapeSequence_def)
  next
    case b
    from b(1,3) have "snd (collectParams t (i + 2) []) = length t"
      by (intro collectParams_all) simp_all
    then have "processCSISequence t (i + 2) s = Some (Inr (length t, s))"
      by (auto simp: processCSISequence_def split: prod.splits)
    with b show ?thesis by (simp add: u processEscapeSequence_def)
  next
    case c
    from c(1,3) have "oscScan t (i + 2) = length t" by (intro oscScan_none) simp_all
    then have "processOSCSequence t (i + 2) = length t" by (simp add: processOSCSequence_def)
    with c show ?thesis by (simp add: u processEscapeSequence_def)
  next
    case d
    then show ?thesis by (simp add: u processEscapeSequence_def)
  qed
qed

lemma processCSISequence_advances:
  assumes "processCSISequence t st s = Some (Inr (j, s'))" and "st < length t"
  shows "st < j"
proof -
  obtain q i where c: "collectParams t st [] = (q, i)" by (cases "collectParams t st []")
  then have "st \<le> i" by (rule collectParams_index)
  with assms c show ?thesis
    by (auto simp: processCSISequence_def Let_def split: if_splits sum.splits option.splits)
qed

lemma processOSCSequence_advances: "i < length t \<Longrightarrow> i < processOSCSequence t i"
  using oscScan_index [of i t] by (auto simp: processOSCSequence_def Let_def)

text \<open>
  What holds of the index. A unit of the output processor that returns has advanced the
  index: \<open>processUnit\<close>, and \<open>processEscapeSequence\<close> inside it, return an index
  strictly greater than the one they started from, and so do the CSI and OSC
  sub-parsers from a start index inside the text. An incomplete sequence at the end of
  the text is consumed up to the end, leaving the state as it was, with no exception.
\<close>

lemma units_advance:
  "(\<forall>j s'. processUnit t i s = Some (Inr (j, s')) \<longrightarrow> i < j) \<and>
   (\<forall>j s'. processEscapeSequence t i s = Some (Inr (j, s')) \<longrightarrow> i < j) \<and>
   (\<forall>j s'. i < length t \<longrightarrow> processCSISequence t i s = Some (Inr (j, s')) \<longrightarrow> i < j) \<and>
   (i < length t \<longrightarrow> i < processOSCSequence t i) \<and>
   (incomplete t i \<longrightarrow> processOutput_loop t i s = Some (Inr s))"
proof -
  have "processOutput_loop t i s = Some (Inr s)" if inc: "incomplete t i"
  proof -
    from processUnit_incomplete [OF inc] obtain j
      where j: "length t \<le> j" and u: "processUnit t i s = Some (Inr (j, s))" by blast
    from inc have "i < length t" by (simp add: incomplete_def)
    with u have "processOutput_loop t i s = processOutput_loop t j s"
      by (subst processOutput_loop.simps) simp
    also from j have "\<dots> = Some (Inr s)" by (subst processOutput_loop.simps) simp
    finally show ?thesis .
  qed
  then show ?thesis
    using processUnit_index processEscapeSequence_index processCSISequence_advances
      processOSCSequence_advances
    by blast
qed

section \<open>Closed forms of the loops that fill rows\<close>

lemma upto_snoc: "0 \<le> k \<Longrightarrow> [0..k] = [0..k - 1] @ [k]"
  using upto_rec2 [of 0 k] by simp

lemma new_row_closed:
  assumes "n \<le> 4294967295"
  shows "new_row n a = \<lparr>elems = replicate (nat n) (Some (blank a)), props = (\<lambda>k. None)\<rparr>"
proof -
  have "k \<le> 4294967295 \<Longrightarrow>
    fold (\<lambda>col r. array_set r (Num col) (Some (blank a))) [0..int k - 1] array_empty =
      \<lparr>elems = replicate k (Some (blank a)), props = (\<lambda>k. None)\<rparr>" for k :: nat
  proof (induction k)
    case 0
    then show ?case by (simp add: array_empty_def)
  next
    case (Suc k)
    have "[0..int (Suc k) - 1] = [0..int k - 1] @ [int k]"
      using upto_snoc [of "int k"] by simp
    with Suc show ?case
      by (simp add: array_set_def is_index_def replicate_append_same)
  qed
  from this [of "nat n"] assms show ?thesis
    by (cases "n \<ge> 0") (simp_all add: new_row_def array_empty_def)
qed

lemma fold_clearRow_closed:
  assumes "k \<le> 4294967295"
  shows "fold clearRow (map Num [0..int k - 1]) s =
    s\<lparr>screen := \<lparr>elems = replicate k (Some (new_row (cols s) (attributes s))) @ drop k (elems (screen s)),
                   props = props (screen s)\<rparr>\<rparr>"
  using assms
proof (induction k)
  case 0
  then show ?case by simp
next
  case (Suc k)
  have u: "[0..int (Suc k) - 1] = [0..int k - 1] @ [int k]"
    using upto_snoc [of "int k"] by simp
  let ?R = "Some (new_row (cols s) (attributes s))"
  have l: "(replicate k ?R @ drop k xs)[k := ?R] = replicate (Suc k) ?R @ drop (Suc k) xs"
    if "k < length xs" for xs :: "row option list"
  proof -
    from that have "drop k xs = xs ! k # drop (Suc k) xs" by (simp add: Cons_nth_drop_Suc)
    then show ?thesis by (simp add: list_update_append replicate_append_same)
  qed
  have "fold clearRow (map Num [0..int (Suc k) - 1]) s =
      clearRow (Num (int k)) (fold clearRow (map Num [0..int k - 1]) s)"
    unfolding u by simp
  also from Suc have "fold clearRow (map Num [0..int k - 1]) s =
      s\<lparr>screen := \<lparr>elems = replicate k ?R @ drop k (elems (screen s)), props = props (screen s)\<rparr>\<rparr>"
    by simp
  also from Suc.prems have "clearRow (Num (int k)) \<dots> =
      s\<lparr>screen := \<lparr>elems = replicate (Suc k) ?R @ drop (Suc k) (elems (screen s)),
                     props = props (screen s)\<rparr>\<rparr>"
    by (cases "k < length (elems (screen s))")
      (simp_all add: clearRow_def array_set_def is_index_def l replicate_append_same)
  finally show ?case .
qed

lemma initializeScreen_closed:
  assumes "rows s \<le> 4294967295"
  shows "initializeScreen s =
    s\<lparr>screen := \<lparr>elems = replicate (nat (rows s)) (Some (new_row (cols s) (attributes s))) @
                            drop (nat (rows s)) (elems (screen s)),
                   props = props (screen s)\<rparr>\<rparr>"
proof (cases "rows s \<ge> 0")
  case True
  with fold_clearRow_closed [of "nat (rows s)" s] assms show ?thesis
    by (simp add: initializeScreen_def)
next
  case False
  then show ?thesis by (simp add: initializeScreen_def)
qed

lemma fresh_closed:
  "fresh =
     \<lparr>cursorX = 0, cursorY = Num 0, rows = 24, cols = 80, scrollTop = Num 0,
      scrollBottom = Num 23, wraparound = True, applicationCursor = False,
      screen = \<lparr>elems = replicate 24 (Some (new_row 80 default_attributes)), props = (\<lambda>k. None)\<rparr>,
      scrollback = [], attributes = default_attributes,
      savedCursor = None, sessionLog = [], replayData = [], isReplaying = False,
      replayIndex = 0\<rparr>"
  by (simp add: fresh_def initializeScreen_closed array_empty_def)


lemma within_next: "within a \<Longrightarrow> within (add a (Num 1))"
proof -
  assume "within a"
  then obtain x where x: "a = Num x" "- 9007199254740992 \<le> x" "x \<le> 9007199254740992"
    by (cases a) (auto simp: within_def)
  show ?thesis
  proof (cases "x = 9007199254740992")
    case True
    have "number_of 9007199254740993 = Num 9007199254740992"
      by (simp add: number_of_def nearest_def bitlen.simps Let_def)
    with True x show ?thesis by (simp add: within_def)
  next
    case False
    with x have "number_of (x + 1) = Num (x + 1)" by (simp add: number_of_exact)
    with False x show ?thesis by (simp add: within_def)
  qed
qed

lemma clearRows_endless:
  assumes "within a" "lt (Num 9007199254740992) b"
  shows "clearRows a b s = None"
proof -
  have "\<not> (within a \<and> lt (Num 9007199254740992) b)" if "clearRows a b s = Some s'" for a b s s'
    using that
  proof (induction rule: clearRows_induct)
    case (stop a b s)
    then show ?case by (cases a; cases b) (auto simp: within_def)
  next
    case (step a b s s')
    then show ?case using within_next [of a] by blast
  qed
  with assms show ?thesis by (cases "clearRows a b s") auto
qed

section \<open>Evaluating a write\<close>

lemmas parser_eval =
  processOutput_def processOutput_loop.simps processUnit_def processEscapeSequence_def
  processCSISequence_def collectParams.simps oscScan.simps processOSCSequence_def
  csiCommand_def param_or_def falsy_def parseInt_or0_def number_of_exact isParamChar_def
  str_def ESC_def LF_def BEL_def write'_def addToReplayLog_def enableReplay_def
  maxReplaySize_def slice_from_def Let_def

lemmas command_eval =
  setScrollRegion_def setCursorPosition_def cursorUp_def cursorDown_def cursorLeft_def
  cursorRight_def insertCharacter_def lineFeed_def array_get_def array_set_def is_index_def
  Math_max_def Math_min_def sub_def strict_eq_def int_of_def

lemma scrollUp_scrollback:
  "scrollback (scrollUp s) =
     (if int (length (scrollback s)) + 1 > maxScrollback
      then slice_from (scrollback s @ [array_get (screen s) (scrollTop s)])
             (- (maxScrollback div 2))
      else scrollback s @ [array_get (screen s) (scrollTop s)])"
  by (simp add: scrollUp_def Let_def clearRow_def)

lemma scrollUp_scrollback_length:
  "length (scrollback (scrollUp s)) =
     (if length (scrollback s) \<ge> 10000 then 5000 else length (scrollback s) + 1)"
proof -
  have "n - nat (int n - 4999) = 4999" if "10000 \<le> n" for n :: nat
    using that by linarith
  then show ?thesis
    by (simp add: scrollUp_scrollback maxScrollback_def slice_from_def)
qed

lemma fresh_fields [simp]:
  "cursorX fresh = 0" "cursorY fresh = Num 0" "rows fresh = 24" "cols fresh = 80"
  "scrollTop fresh = Num 0" "scrollBottom fresh = Num 23" "wraparound fresh"
  "\<not> applicationCursor fresh"
  "scrollback fresh = []" "attributes fresh = default_attributes" "savedCursor fresh = None"
  "sessionLog fresh = []" "replayData fresh = []" "\<not> isReplaying fresh" "replayIndex fresh = 0"
  "screen fresh = \<lparr>elems = replicate 24 (Some (new_row 80 default_attributes)), props = (\<lambda>k. None)\<rparr>"
  by (simp_all add: fresh_closed)

section \<open>The scroll region\<close>

text \<open>
  Claim C3. \<open>setScrollRegion\<close> bounds the top from below only and the bottom from above
  only: on a fresh 24-row terminal the sequence CSI 100 r leaves \<open>scrollTop = 99\<close> and
  \<open>scrollBottom = 23\<close>, outside \<open>0 \<le> scrollTop \<le> scrollBottom \<le> rows - 1\<close>.
\<close>

theorem scroll_region_unclamped:
  "\<exists>s'. write' ([ESC] @ str ''[100r'') fresh = Some (Inr s') \<and>
     scrollTop s' = Num 99 \<and> scrollBottom s' = Num 23 \<and> rows s' = 24"
  by (simp add: fresh_closed parser_eval command_eval)

text \<open>
  Claim C2. With the top of the region at row 99, cursor-up moves the cursor to row 99,
  and the next printable character is stored into a row that does not exist: the
  write throws a TypeError.
\<close>

theorem write_throws:
  "write' ([ESC] @ str ''[100r'' @ [ESC] @ str ''[AX'') fresh = Some (Inl TypeError)"
  by (simp add: fresh_closed parser_eval command_eval)

text \<open>
  The same happens below a region that is within bounds: a line feed on the last row,
  outside the region, moves the cursor to row 24.
\<close>

lemma write_throws_below_region:
  "write' ([ESC] @ str ''[1;10r'' @ [ESC] @ str ''[24;1H'' @ [LF] @ str ''X'') fresh =
     Some (Inl TypeError)"
  by (simp add: fresh_closed parser_eval command_eval)

section \<open>A write that does not return\<close>

lemma collectParams_run:
  assumes "\<forall>k < n. i + k < length t \<and> isParamChar (t ! (i + k))"
    and "i + n < length t \<longrightarrow> \<not> isParamChar (t ! (i + n))"
  shows "collectParams t i p = (p @ take n (drop i t), i + n)"
  using assms
proof (induction n arbitrary: i p)
  case 0
  then show ?case by (subst collectParams.simps) auto
next
  case (Suc n)
  from Suc.prems(1) have i: "i < length t" "isParamChar (t ! i)"
    using Suc.prems(1) [rule_format, of 0] by simp_all
  from Suc.prems have "\<forall>k < n. i + 1 + k < length t \<and> isParamChar (t ! (i + 1 + k))"
    and "i + 1 + n < length t \<longrightarrow> \<not> isParamChar (t ! (i + 1 + n))"
    by auto
  from Suc.IH [OF this] have "collectParams t (i + 1) (p @ [t ! i]) =
      ((p @ [t ! i]) @ take n (drop (i + 1) t), i + 1 + n)" .
  moreover from i have "take (Suc n) (drop i t) = t ! i # take n (drop (i + 1) t)"
    by (simp add: Cons_nth_drop_Suc [symmetric])
  ultimately show ?case using i by (subst collectParams.simps) simp
qed

lemma split_whole: "sep \<notin> set xs \<Longrightarrow> split sep xs = [xs]"
  by (induction xs) auto

lemma parse_nines:
  "foldl (\<lambda>n d. n * 10 + (int d - 48)) a (replicate n 57) = a * 10 ^ n + (10 ^ n - 1)"
  by (induction n arbitrary: a) (simp_all add: algebra_simps)

lemma parseInt_nines: "parseInt_or0 (replicate 309 57) = Infinity"
proof -
  have "(2::int) ^ 1024 \<le> 10 ^ 309 - 1" by simp
  then have "number_of (10 ^ 309 - 1) = Infinity" by (rule number_of_overflow)
  then show ?thesis by (simp add: parseInt_or0_def parse_nines)
qed

lemma region_to_infinity:
  "processUnit erase_above_endless 0 s =
     Some (Inr (312, setScrollRegion Infinity (Num (rows s)) s))"
proof -
  let ?t = "27 # 91 # replicate 309 57 @ [114, 27, 91, 65, 27, 91, 49, 74]"
  have t: "erase_above_endless = ?t"
    by (simp add: erase_above_endless_def str_def ESC_def)
  have "collectParams ?t 2 [] = ([] @ take 309 (drop 2 ?t), 2 + 309)"
    by (rule collectParams_run) (auto simp: nth_append isParamChar_def)
  then have c: "collectParams ?t 2 [] = (replicate 309 57, 311)" by simp
  have n: "?t ! 311 = 114" "?t ! 1 = 91" "?t ! 0 = 27" by (simp_all add: nth_append)
  have "processCSISequence ?t 2 s =
      Some (Inr (312, setScrollRegion Infinity (Num (rows s)) s))"
    by (simp add: processCSISequence_def c n csiCommand_def split_whole parseInt_nines
        param_or_def falsy_def nth_append Let_def)
  then have "processCSISequence ?t (Suc (Suc 0)) s =
      Some (Inr (312, setScrollRegion Infinity (Num (rows s)) s))"
    by (simp add: numeral_2_eq_2)
  then show ?thesis
    unfolding t by (simp add: processUnit_def processEscapeSequence_def n ESC_def)
qed

text \<open>
  Claim C7. Every unit advances the index, and yet a write need not end. The parameter
  of 309 digits parses to \<^verbatim>\<open>Infinity\<close>, \<open>setScrollRegion\<close> puts no upper bound on the
  top of the region, cursor-up moves the cursor to row \<^verbatim>\<open>Infinity\<close>, and the loop of
  \<open>eraseDisplay\<close> that clears the rows above the cursor never reaches it: the write
  does not return.
\<close>

theorem write_never_returns: "write' erase_above_endless fresh = None"
proof -
  let ?t = "27 # 91 # replicate 309 57 @ [114, 27, 91, 65, 27, 91, 49, 74]"
  have t: "erase_above_endless = ?t"
    by (simp add: erase_above_endless_def str_def ESC_def)
  let ?s0 = "addToReplayLog ''output'' erase_above_endless fresh"
  let ?s1 = "setScrollRegion Infinity (Num 24) ?s0"
  let ?s2 = "cursorUp (Num 1) ?s1"
  have u1: "processUnit erase_above_endless 0 ?s0 = Some (Inr (312, ?s1))"
    using region_to_infinity [of ?s0] by simp
  have c2: "collectParams ?t 314 [] = ([], 314)"
    by (subst collectParams.simps) (simp add: nth_append isParamChar_def)
  have u2: "processUnit ?t 312 ?s1 = Some (Inr (315, ?s2))"
    by (simp add: processUnit_def processEscapeSequence_def processCSISequence_def c2
        csiCommand_def param_or_def nth_append ESC_def Let_def)
  have y: "cursorY ?s2 = Infinity"
    by (simp add: cursorUp_def setScrollRegion_def setCursorPosition_def Math_max_def
        Math_min_def sub_def number_of_exact)
  have "within (Num 0)" by (simp add: within_def)
  then have "clearRows (Num 0) Infinity ?s2 = None" by (rule clearRows_endless) simp
  with y have e: "eraseDisplay (Num 1) ?s2 = None" by (simp add: eraseDisplay_def)
  have c3: "collectParams ?t 317 [] = ([49], 318)"
    by (simp add: collectParams.simps nth_append isParamChar_def)
  have u3: "processUnit ?t 315 ?s2 = None"
    by (simp add: processUnit_def processEscapeSequence_def processCSISequence_def c3
        csiCommand_def param_or_def falsy_def parseInt_or0_def number_of_exact e nth_append
        ESC_def Let_def)
  have "processOutput_loop ?t 0 ?s0 = processOutput_loop ?t 312 ?s1"
    using u1 unfolding t by (subst processOutput_loop.simps) simp
  also have "\<dots> = processOutput_loop ?t 315 ?s2"
    using u2 by (subst processOutput_loop.simps) simp
  also have "\<dots> = None"
    using u3 by (subst processOutput_loop.simps) simp
  finally show ?thesis
    by (simp add: write'_def processOutput_def enableReplay_def t)
qed

section \<open>Replay starts on a blank screen with the pen and the region it finds\<close>

lemma new_row_cell:
  "0 \<le> c \<Longrightarrow> c < n \<Longrightarrow> n \<le> 4294967295 \<Longrightarrow> array_get (new_row n a) (Num c) = Some (blank a)"
  by (simp add: new_row_closed array_get_def is_index_def)

lemma startReplay_closed:
  assumes "rows s \<le> 4294967295"
  shows "startReplay d s =
    Inr (s\<lparr>isReplaying := True, replayIndex := 0, replayData := d,
            screen := \<lparr>elems = replicate (nat (rows s)) (Some (new_row (cols s) (attributes s))) @
                            drop (nat (rows s)) (elems (screen s)),
                        props = props (screen s)\<rparr>,
            cursorX := 0, cursorY := Num 0\<rparr>)"
  using assms by (simp add: startReplay_def enableReplay_def initializeScreen_closed)

text \<open>
  Claim C10. \<open>startReplay\<close> puts the cursor at \<open>(0, 0)\<close> and leaves the attribute
  set and the bounds of the scroll region as they were. Every cell of the grid is then a
  space whose attributes are the attribute set in force before the replay, whatever that
  set is.
\<close>

theorem startReplay_frame:
  assumes "rows s \<le> 4294967295" and "cols s \<le> 4294967295"
  shows "\<exists>s'. startReplay d s = Inr s' \<and>
           cursorX s' = 0 \<and> cursorY s' = Num 0 \<and>
           attributes s' = attributes s \<and>
           scrollTop s' = scrollTop s \<and> scrollBottom s' = scrollBottom s \<and>
           (\<forall>r c. 0 \<le> r \<and> r < rows s \<and> 0 \<le> c \<and> c < cols s \<longrightarrow>
              (\<exists>line x. array_get (screen s') (Num r) = Some line \<and>
                 array_get line (Num c) = Some x \<and>
                 char x = 32 \<and> cell_attributes x = attributes s))"
proof -
  have "array_get \<lparr>elems = replicate (nat (rows s)) (Some (new_row (cols s) (attributes s))) @
                            drop (nat (rows s)) (elems (screen s)),
                        props = props (screen s)\<rparr> (Num r) = Some (new_row (cols s) (attributes s))"
    if "0 \<le> r" "r < rows s" for r
    using that assms(1) by (simp add: array_get_def is_index_def nth_append)
  moreover have "array_get (new_row (cols s) (attributes s)) (Num c) =
      Some \<lparr>char = 32, cell_attributes = attributes s\<rparr>" if "0 \<le> c" "c < cols s" for c
    using that assms(2) by (simp add: new_row_cell blank_def)
  ultimately show ?thesis using assms
    by (simp add: startReplay_closed)
qed

lemma styled_fields:
  "rows styled = 24" "cols styled = 80" "scrollTop styled = Num 4" "scrollBottom styled = Num 9"
  "attributes styled =
     default_attributes\<lparr>bold := True, underline := True, foreground := 1, background := 4\<rparr>"
  by (simp_all add: styled_def fresh_closed parser_eval command_eval setGraphicsRendition_def
      sgr_def default_attributes_def)

theorem startReplay_frame_witness:
  "rows styled \<le> 4294967295 \<and> cols styled \<le> 4294967295 \<and>
   (\<exists>s'. startReplay (sessionLog styled) styled = Inr s' \<and> cursorX s' = 0 \<and>
      cursorY s' = Num 0 \<and> scrollTop s' = Num 4 \<and> scrollBottom s' = Num 9 \<and>
      attributes s' =
        default_attributes\<lparr>bold := True, underline := True, foreground := 1, background := 4\<rparr> \<and>
      (\<exists>line x. array_get (screen s') (Num 23) = Some line \<and>
         array_get line (Num 79) = Some x \<and> char x = 32 \<and>
         cell_attributes x =
           \<lparr>bold = True, dim = False, italic = False, underline = True, blink = False,
            reverse = False, strikethrough = False, foreground = 1, background = 4\<rparr>))"
proof -
  have a: "default_attributes\<lparr>bold := True, underline := True, foreground := 1, background := 4\<rparr> =
      \<lparr>bold = True, dim = False, italic = False, underline = True, blink = False,
       reverse = False, strikethrough = False, foreground = 1, background = 4\<rparr>"
    by (simp add: default_attributes_def)
  from startReplay_frame [of styled "sessionLog styled"] obtain s' where
    s': "startReplay (sessionLog styled) styled = Inr s'" "cursorX s' = 0" "cursorY s' = Num 0"
      "attributes s' = attributes styled" "scrollTop s' = scrollTop styled"
      "scrollBottom s' = scrollBottom styled"
      "\<forall>r c. 0 \<le> r \<and> r < rows styled \<and> 0 \<le> c \<and> c < cols styled \<longrightarrow>
         (\<exists>line x. array_get (screen s') (Num r) = Some line \<and>
            array_get line (Num c) = Some x \<and>
            char x = 32 \<and> cell_attributes x = attributes styled)"
    by (auto simp: styled_fields)
  from s'(7) [rule_format, of 23 79] obtain line x where
    "array_get (screen s') (Num 23) = Some line" "array_get line (Num 79) = Some x"
    "char x = 32" "cell_attributes x = attributes styled"
    by (auto simp: styled_fields)
  with s' show ?thesis
    by (simp add: styled_fields a)
qed

section \<open>Line feeds and the scrollback\<close>

lemma processUnit_LF:
  "i < n \<Longrightarrow> processUnit (replicate n LF) i s = Some (Inr (i + 1, lineFeed s))"
  by (simp add: processUnit_def LF_def ESC_def)

lemma processOutput_loop_LF:
  "i \<le> n \<Longrightarrow> processOutput_loop (replicate n LF) i s = Some (Inr ((lineFeed ^^ (n - i)) s))"
proof (induction "n - i" arbitrary: i s)
  case 0
  then show ?case by (subst processOutput_loop.simps) simp
next
  case (Suc k)
  then have i: "i < n" and k: "k = n - (i + 1)" by simp_all
  from Suc.hyps(1) [OF k] i
  have "processOutput_loop (replicate n LF) (i + 1) (lineFeed s) =
      Some (Inr ((lineFeed ^^ k) (lineFeed s)))"
    using k by simp
  moreover from Suc.hyps(2) have "n - i = Suc k" by simp
  ultimately show ?case using i
    by (subst processOutput_loop.simps) (simp add: processUnit_LF funpow_swap1)
qed

lemma lineFeed_climb:
  "cursorY s = Num y \<Longrightarrow> scrollBottom s = Num b \<Longrightarrow> 0 \<le> y \<Longrightarrow> b \<le> 4294967295 \<Longrightarrow>
   int k \<le> b - y \<Longrightarrow>
     cursorY ((lineFeed ^^ k) s) = Num (y + int k) \<and>
     scrollBottom ((lineFeed ^^ k) s) = Num b \<and>
     scrollback ((lineFeed ^^ k) s) = scrollback s"
  by (induction k) (auto simp: lineFeed_def strict_eq_def number_of_exact)

lemma lineFeed_scroll:
  "cursorY s = Num b \<Longrightarrow> scrollBottom s = Num b \<Longrightarrow> length (scrollback s) + k \<le> 10000 \<Longrightarrow>
     cursorY ((lineFeed ^^ k) s) = Num b \<and>
     scrollBottom ((lineFeed ^^ k) s) = Num b \<and>
     length (scrollback ((lineFeed ^^ k) s)) = length (scrollback s) + k"
  by (induction k) (auto simp: lineFeed_def strict_eq_def scrollUp_scrollback_length)

lemma write'_LF:
  "\<not> isReplaying s \<Longrightarrow>
   write' (replicate n LF) s =
     Some (Inr ((lineFeed ^^ n) (addToReplayLog ''output'' (replicate n LF) s)))"
  by (simp add: write'_def enableReplay_def processOutput_def processOutput_loop_LF)

lemma line_feeds_from_fresh:
  assumes "n \<le> 10000"
  shows "\<exists>s'. write' (replicate (23 + n) LF) fresh = Some (Inr s') \<and>
           length (scrollback s') = n \<and> cursorY s' = Num 23"
proof -
  let ?s0 = "addToReplayLog ''output'' (replicate (23 + n) LF) fresh"
  let ?s1 = "(lineFeed ^^ 23) ?s0"
  have w: "write' (replicate (23 + n) LF) fresh = Some (Inr ((lineFeed ^^ n) ?s1))"
    by (simp add: write'_LF funpow_add add.commute)
  from lineFeed_climb [of ?s0 0 23 23]
  have 1: "cursorY ?s1 = Num 23" "scrollBottom ?s1 = Num 23" "scrollback ?s1 = []" by simp_all
  with lineFeed_scroll [of ?s1 23 n] assms
  have "cursorY ((lineFeed ^^ n) ?s1) = Num 23" "length (scrollback ((lineFeed ^^ n) ?s1)) = n"
    by simp_all
  with w show ?thesis by simp
qed

text \<open>
  Claim C8, as the code has it. On the fresh 24-row terminal the first 23 line feeds move
  the cursor to row 23 and each further one scrolls: 25 line feeds leave two rows in
  the scrollback and the cursor on row 23.
\<close>

theorem twenty_five_line_feeds:
  "\<exists>s'. write' (replicate 25 LF) fresh = Some (Inr s') \<and>
     length (scrollback s') = 2 \<and> cursorY s' = Num 23"
  using line_feeds_from_fresh [of 2] by simp

text \<open>The scrollback does not hold one row after 25 line feeds.\<close>

theorem twenty_five_line_feeds_not_one:
  "\<not> (\<exists>s'. write' (replicate 25 LF) fresh = Some (Inr s') \<and>
          length (scrollback s') = 1 \<and> cursorY s' = Num 23)"
  using line_feeds_from_fresh [of 2] by auto

section \<open>The cursor stays inside the grid\<close>

lemma inside_iff: "le (Num 0) y \<and> lt y (Num r) \<longleftrightarrow> (\<exists>v. y = Num v \<and> 0 \<le> v \<and> v < r)"
  by (cases y) (auto simp: le_def)

lemma cursor_ok_iff:
  "cursor_ok s \<longleftrightarrow>
     0 \<le> cursorX s \<and> cursorX s \<le> cols s \<and> (\<exists>v. cursorY s = Num v \<and> 0 \<le> v \<and> v < rows s)"
  by (simp add: cursor_ok_def inside_iff)

lemma saved_ok_iff:
  "saved_ok s \<longleftrightarrow>
     (\<forall>c. savedCursor s = Some c \<longrightarrow>
        0 \<le> saved_x c \<and> saved_x c \<le> cols s \<and> (\<exists>v. saved_y c = Num v \<and> 0 \<le> v \<and> v < rows s))"
  by (simp add: saved_ok_def inside_iff split: option.splits)

lemma rows_ok_set:
  "rows_ok n a \<Longrightarrow> 0 \<le> i \<Longrightarrow> i < int n \<Longrightarrow> int n \<le> 4294967295 \<Longrightarrow>
     rows_ok n (array_set a (Num i) (Some v))"
  by (auto simp: rows_ok_def array_set_def is_index_def dest: set_update_subset_insert [THEN subsetD])

lemma rows_ok_get:
  "rows_ok n a \<Longrightarrow> 0 \<le> i \<Longrightarrow> i < int n \<Longrightarrow> int n \<le> 4294967295 \<Longrightarrow>
     \<exists>r. array_get a (Num i) = Some r"
  by (auto simp: rows_ok_def array_get_def is_index_def) (metis nth_mem not_None_eq)

lemma rows_ok_moves:
  assumes "rows_ok n a" "int n \<le> 4294967295"
    and "\<forall>r \<in> set rs. 0 \<le> r \<and> r < int n \<and> 0 \<le> r + d \<and> r + d < int n"
  shows "rows_ok n (fold (\<lambda>r a. array_set a (Num r) (array_get a (Num (r + d)))) rs a)"
  using assms
proof (induction rs arbitrary: a)
  case Nil
  then show ?case by simp
next
  case (Cons r rs)
  from Cons.prems obtain v where "array_get a (Num (r + d)) = Some v"
    using rows_ok_get [of n a "r + d"] by auto
  moreover from Cons.prems have "rows_ok n (array_set a (Num r) (Some v))"
    by (intro rows_ok_set) auto
  ultimately show ?case using Cons by simp
qed


lemma clearRow_region [simp]: "region_full (clearRow r s) = region_full s"
  by (simp add: region_full_def)


lemma scrollUp_tidy:
  assumes "tidy s" "region_full s"
  shows "tidy (scrollUp s)"
proof -
  from assms have g: "rows_ok (nat (rows s)) (screen s)" "1 \<le> rows s" "rows s \<le> 4294967295"
    by (simp_all add: tidy_def grid_def)
  from assms(2) have r: "scrollTop s = Num 0" "scrollBottom s = Num (rows s - 1)"
    by (simp_all add: region_full_def)
  let ?moved = "fold (\<lambda>r a. array_set a (Num r) (array_get a (Num (r + 1)))) [0..rows s - 1 - 1] (screen s)"
  from g have "rows_ok (nat (rows s)) ?moved"
    by (intro rows_ok_moves) auto
  with g have "rows_ok (nat (rows s))
      (array_set ?moved (Num (rows s - 1)) (Some (new_row (cols s) (attributes s))))"
    by (intro rows_ok_set) auto
  with assms(1) show ?thesis
    by (simp add: tidy_def grid_def cursor_ok_def saved_ok_def scrollUp_def Let_def clearRow_def
        rows_up_def r split: option.splits)
qed


lemma scroll_region [simp]:
  "region_full (scrollUp s) = region_full s" "region_full (scrollDown s) = region_full s"
  by (simp_all add: region_full_def)

lemmas tidy_defs = tidy_def grid_def cursor_ok_iff saved_ok_iff region_full_def

lemma row_below:
  assumes "tidy s" "region_full s" "\<not> strict_eq (cursorY s) (scrollBottom s)"
  shows "\<exists>v. cursorY s = Num v \<and> 0 \<le> v \<and> v + 1 < rows s \<and> add (cursorY s) (Num 1) = Num (v + 1)"
proof -
  from assms obtain v where v: "cursorY s = Num v" "0 \<le> v" "v < rows s" "v \<noteq> rows s - 1"
    "rows s \<le> 4294967295"
    by (auto simp: tidy_defs strict_eq_def)
  then have "number_of (v + 1) = Num (v + 1)" by (intro number_of_exact) simp
  with v show ?thesis by simp
qed


lemma lineFeed_tidy: "tidy s \<Longrightarrow> region_full s \<Longrightarrow> tidy (lineFeed s) \<and> region_full (lineFeed s)"
  using row_below [of s]
  by (auto simp: lineFeed_def scrollUp_tidy)
     (auto simp: tidy_defs)



lemma collectParams_chars:
  "collectParams t i p = (q, j) \<Longrightarrow> list_all isParamChar p \<Longrightarrow> list_all isParamChar q"
proof (induction t i p arbitrary: q j rule: collectParams.induct)
  case (1 t i p)
  show ?case
  proof (cases "i < length t \<and> isParamChar (t ! i)")
    case True
    with "1.prems" have "collectParams t (i + 1) (p @ [t ! i]) = (q, j)"
      by (subst (asm) collectParams.simps) simp
    with "1.IH" True "1.prems"(2) show ?thesis by simp
  next
    case False
    with "1.prems" show ?thesis by (subst (asm) collectParams.simps) auto
  qed
qed

lemma split_pieces: "w \<in> set (split sep xs) \<Longrightarrow> set w \<subseteq> set xs - {sep}"
proof (induction xs arbitrary: w)
  case Nil
  then show ?case by simp
next
  case (Cons c cs)
  show ?case
  proof (cases "c = sep")
    case True
    with Cons show ?thesis by auto
  next
    case False
    show ?thesis
    proof (cases "split sep cs")
      case Nil
      with False Cons.prems show ?thesis by auto
    next
      case (Cons a list)
      with Cons.IH have "set a \<subseteq> set cs - {sep}" "\<And>v. v \<in> set list \<Longrightarrow> set v \<subseteq> set cs - {sep}"
        by simp_all
      with False Cons Cons.prems show ?thesis by auto
    qed
  qed
qed

lemma number_of_nonneg: "0 \<le> a \<Longrightarrow> le (Num 0) (number_of a)"
proof (cases "a \<le> 9007199254740992")
  case True
  assume "0 \<le> a"
  with True have "number_of a = Num a" by (intro number_of_exact) simp
  with \<open>0 \<le> a\<close> show ?thesis by simp
next
  case False
  then have "9007199254740992 \<le> a" by simp
  from number_of_high [OF this] show ?thesis by auto
qed

lemma parseInt_or0_nonneg:
  assumes "\<forall>d \<in> set p. 48 \<le> d"
  shows "le (Num 0) (parseInt_or0 p)"
proof -
  have "0 \<le> n \<Longrightarrow> \<forall>d \<in> set p. 48 \<le> d \<Longrightarrow> 0 \<le> foldl (\<lambda>n d. n * 10 + (int d - 48)) n p" for n
    by (induction p arbitrary: n) auto
  with assms show ?thesis by (simp add: parseInt_or0_def number_of_nonneg)
qed

lemma params_nonneg:
  assumes "collectParams t i [] = (q, j)"
  shows "\<forall>p \<in> set (map parseInt_or0 (split (of_char CHR '';'') q)). le (Num 0) p"
proof -
  from assms have q: "list_all isParamChar q" by (rule collectParams_chars) simp
  have "le (Num 0) (parseInt_or0 w)" if "w \<in> set (split 59 q)" for w
  proof (rule parseInt_or0_nonneg, rule ballI)
    fix d assume "d \<in> set w"
    with split_pieces [OF that] have "d \<in> set q" "d \<noteq> 59" by auto
    with q show "48 \<le> d" by (auto simp: list_all_iff isParamChar_def)
  qed
  then show ?thesis by simp
qed

lemma le_one: "le (Num 1) n \<longleftrightarrow> n = Infinity \<or> (\<exists>k. n = Num k \<and> 1 \<le> k)"
  by (cases n) (auto simp: le_def)

lemma param_or_pos:
  assumes "\<forall>p \<in> set params. le (Num 0) p" "le (Num 1) d"
  shows "le (Num 1) (param_or params k d)"
proof (cases "k < length params \<and> \<not> falsy (params ! k)")
  case True
  with assms(1) have "le (Num 0) (params ! k)" by simp
  with True show ?thesis
    by (cases "params ! k") (auto simp: param_or_def falsy_def)
next
  case False
  with assms(2) show ?thesis by (auto simp: param_or_def)
qed







lemma grid_get:
  "grid s \<Longrightarrow> 0 \<le> r \<Longrightarrow> r < rows s \<Longrightarrow> \<exists>l. array_get (screen s) (Num r) = Some l"
  using rows_ok_get [of "nat (rows s)" "screen s" r] by (simp add: grid_def)

lemma grid_set:
  "grid s \<Longrightarrow> 0 \<le> r \<Longrightarrow> r < rows s \<Longrightarrow>
     rows_ok (nat (rows s)) (array_set (screen s) (Num r) (Some v))"
  using rows_ok_set [of "nat (rows s)" "screen s" r] by (simp add: grid_def)

lemma insertCharacter_tidy:
  assumes "tidy s" "region_full s"
  shows "\<exists>s'. insertCharacter c s = Inr s' \<and> tidy s' \<and> region_full s'"
proof -
  define s1 where "s1 = (if cursorX s \<ge> cols s
                then (if wraparound s then lineFeed (s\<lparr>cursorX := 0\<rparr>)
                      else s\<lparr>cursorX := cols s - 1\<rparr>)
                else s)"
  have "tidy (s\<lparr>cursorX := 0\<rparr>)" "region_full (s\<lparr>cursorX := 0\<rparr>)"
    using assms by (simp_all add: tidy_defs)
  from lineFeed_tidy [OF this] assms
  have s1: "tidy s1" "region_full s1"
    by (auto simp: s1_def) (auto simp: tidy_defs)
  have x: "cursorX s1 < cols s1"
    using assms by (auto simp: s1_def lineFeed_def tidy_defs)
  from s1 obtain v where g: "grid s1" "cursorY s1 = Num v" "0 \<le> v" "v < rows s1"
    by (auto simp: tidy_def cursor_ok_iff)
  then obtain r where r: "array_get (screen s1) (Num v) = Some r"
    using grid_get by blast
  from g have "rows_ok (nat (rows s1)) (array_set (screen s1) (Num v) (Some w))" for w
    by (intro grid_set)
  with s1 x r g show ?thesis
    unfolding insertCharacter_def s1_def [symmetric] Let_def
    by (simp add: tidy_defs)
qed


lemma eraseLine_fields:
  "eraseLine mode s = Inr s' \<Longrightarrow>
     cursorX s' = cursorX s \<and> cursorY s' = cursorY s \<and> rows s' = rows s \<and> cols s' = cols s"
  by (auto simp: eraseLine_def Let_def clearRow_def split: if_splits option.splits)









lemma rows_ok_extend:
  assumes "rows_ok n a" "int (n + k) \<le> 4294967295"
  shows "rows_ok (n + k) (fold (\<lambda>r scr. array_set scr (Num r) (Some v)) [int n..int (n + k) - 1] a)"
  using assms
proof (induction k)
  case 0
  then show ?case by simp
next
  case (Suc k)
  have "[int n..int (n + Suc k) - 1] = [int n..int (n + k) - 1] @ [int (n + k)]"
    using upto_rec2 [of "int n" "int (n + k)"] by simp
  moreover from Suc have "rows_ok (n + k)
      (fold (\<lambda>r scr. array_set scr (Num r) (Some v)) [int n..int (n + k) - 1] a)"
    by simp
  ultimately show ?case using Suc.prems(2)
    by (auto simp: rows_ok_def array_set_def is_index_def)
qed

lemma forEach_adjustColumns:
  assumes "rows_ok n scr" "int n \<le> 4294967295" "\<forall>r \<in> set rs. 0 \<le> r \<and> r < int n"
  shows "\<exists>scr'. forEach (adjustColumns oc nc a) rs scr = Inr scr' \<and> rows_ok n scr'"
  using assms
proof (induction rs arbitrary: scr)
  case Nil
  then show ?case by simp
next
  case (Cons r rs)
  from Cons.prems obtain l where l: "array_get scr (Num r) = Some l"
    using rows_ok_get [of n scr r] by auto
  from Cons.prems have "rows_ok n (array_set scr (Num r) (Some v))" for v
    by (intro rows_ok_set) auto
  with l Cons.prems(1) have "\<exists>scr1. adjustColumns oc nc a r scr = Inr scr1 \<and> rows_ok n scr1"
    by (simp add: adjustColumns_def)
  then obtain scr1 where "adjustColumns oc nc a r scr = Inr scr1" "rows_ok n scr1"
    by blast
  with Cons.IH [of scr1] Cons.prems show ?case by auto
qed

lemma rows_ok_slice:
  "rows_ok n a \<Longrightarrow> 0 \<le> m \<Longrightarrow> m \<le> int n \<Longrightarrow> rows_ok (nat m) (array_slice0 a m)"
  by (auto simp: rows_ok_def array_slice0_def dest: in_set_takeD)

lemma resize_tidy:
  assumes "tidy s" "region_full s" "1 \<le> r" "r \<le> 4294967295" "1 \<le> c"
  shows "\<exists>s'. resize r c s = Inr s' \<and> grid s' \<and> cursor_ok s' \<and> region_full s'"
proof -
  from assms have g: "rows_ok (nat (rows s)) (screen s)" "1 \<le> rows s" "rows s \<le> 4294967295"
    by (simp_all add: tidy_defs)
  define scr2 where "scr2 =
    (if r > rows s
     then fold (\<lambda>k scr. array_set scr (Num k) (Some (new_row c (attributes s)))) [rows s..r - 1] (screen s)
     else if r < rows s then array_slice0 (screen s) r else screen s)"
  have "rows_ok (nat r) scr2"
  proof -
    consider "r > rows s" | "r < rows s" | "r = rows s" by linarith
    then show ?thesis
    proof cases
      case 1
      with g assms(4) rows_ok_extend [of "nat (rows s)" "screen s" "nat (r - rows s)" "new_row c (attributes s)"]
      show ?thesis by (simp add: scr2_def nat_add_distrib [symmetric])
    next
      case 2
      with g assms(3) rows_ok_slice [of "nat (rows s)" "screen s" r] show ?thesis
        by (simp add: scr2_def)
    next
      case 3
      with g show ?thesis by (simp add: scr2_def)
    qed
  qed
  with assms(3,4) obtain scr' where
    f: "forEach (adjustColumns (cols s) c (attributes s)) [0..min r (rows s) - 1] scr2 = Inr scr'"
    and ok: "rows_ok (nat r) scr'"
    using forEach_adjustColumns [of "nat r" scr2 "[0..min r (rows s) - 1]" "cols s" c "attributes s"]
    by auto
  from f ok assms show ?thesis
    by (auto simp: resize_def Let_def scr2_def tidy_defs)
qed



lemma fresh_tidy: "tidy fresh" "region_full fresh"
  by (simp_all add: tidy_def grid_def rows_ok_def cursor_ok_def saved_ok_def region_full_def)





lemma array_get_set_same:
  "0 \<le> i \<Longrightarrow> i < int (length (elems a)) \<Longrightarrow> i < 4294967295 \<Longrightarrow>
     array_get (array_set a (Num i) v) (Num i) = v"
  by (auto simp: array_get_def array_set_def is_index_def nat_less_iff)

lemma insertCharacter_inside:
  assumes "cursorX s < cols s" "array_get (screen s) (cursorY s) = Some r"
  shows "insertCharacter c s =
    Inr (s\<lparr>screen := array_set (screen s) (cursorY s)
                 (Some (array_set r (Num (cursorX s))
                    (Some \<lparr>char = c, cell_attributes = attributes s\<rparr>))),
            cursorX := cursorX s + 1\<rparr>)"
  using assms by (simp add: insertCharacter_def)

lemma processUnit_printable:
  "i < length t \<Longrightarrow> 32 \<le> t ! i \<Longrightarrow>
     processUnit t i s =
       (case insertCharacter (t ! i) s of
          Inl e \<Rightarrow> Some (Inl e)
        | Inr s' \<Rightarrow> Some (Inr (i + 1, s')))"
  by (simp add: processUnit_def ESC_def LF_def Let_def)

lemma insert_steps:
  assumes "tidy s" "region_full s" "32 \<le> c"
    and "\<forall>k. i \<le> k \<and> k < i + n \<longrightarrow> k < length t \<and> t ! k = c"
    and "cursorX s + int n \<le> cols s" "cols s \<le> 4294967295"
    and "array_get (screen s) (cursorY s) = Some r" "length (elems r) = nat (cols s)"
  shows "\<exists>s' r'. processOutput_loop t i s = processOutput_loop t (i + n) s' \<and>
           tidy s' \<and> region_full s' \<and>
           cursorX s' = cursorX s + int n \<and> cursorY s' = cursorY s \<and>
           rows s' = rows s \<and> cols s' = cols s \<and>
           array_get (screen s') (cursorY s') = Some r' \<and> length (elems r') = nat (cols s')"
  using assms
proof (induction n arbitrary: i s r)
  case 0
  then show ?case by auto
next
  case (Suc n)
  let ?r1 = "array_set r (Num (cursorX s)) (Some \<lparr>char = c, cell_attributes = attributes s\<rparr>)"
  let ?s1 = "s\<lparr>screen := array_set (screen s) (cursorY s) (Some ?r1), cursorX := cursorX s + 1\<rparr>"
  from Suc.prems have i: "i < length t" "t ! i = c" and x: "cursorX s < cols s" by auto
  from x Suc.prems(7) have ins: "insertCharacter c s = Inr ?s1" by (rule insertCharacter_inside)
  with insertCharacter_tidy [OF Suc.prems(1,2), of c] have t1: "tidy ?s1" "region_full ?s1" by auto
  from Suc.prems(1) obtain v where y: "cursorY s = Num v" "0 \<le> v"
    "v < int (length (elems (screen s)))" "v < 4294967295" "0 \<le> cursorX s"
    by (auto simp: tidy_defs rows_ok_def)
  then have g1: "array_get (screen ?s1) (cursorY ?s1) = Some ?r1"
    by (simp add: array_get_set_same)
  from x y Suc.prems(6,8) have l1: "length (elems ?r1) = nat (cols ?s1)"
    by (simp add: array_set_def is_index_def)
  from Suc.prems(4) have k: "\<forall>k. i + 1 \<le> k \<and> k < i + 1 + n \<longrightarrow> k < length t \<and> t ! k = c" by auto
  from Suc.prems(5,6) have "cursorX ?s1 + int n \<le> cols ?s1" "cols ?s1 \<le> 4294967295" by simp_all
  from Suc.IH [OF t1 Suc.prems(3) k this g1 l1] obtain s' r' where
    s': "processOutput_loop t (i + 1) ?s1 = processOutput_loop t (i + 1 + n) s'"
      "tidy s'" "region_full s'" "cursorX s' = cursorX ?s1 + int n" "cursorY s' = cursorY ?s1"
      "rows s' = rows ?s1" "cols s' = cols ?s1"
      "array_get (screen s') (cursorY s') = Some r'" "length (elems r') = nat (cols s')"
    by blast
  from i Suc.prems(3) ins have "processUnit t i s = Some (Inr (i + 1, ?s1))"
    by (simp add: processUnit_printable)
  with i have "processOutput_loop t i s = processOutput_loop t (i + 1) ?s1"
    by (subst processOutput_loop.simps) simp
  with s' show ?case by (intro exI [of _ s'] exI [of _ r']) simp
qed

lemma fill_length:
  "int k \<le> 4294967295 \<Longrightarrow>
     length (elems (fold (\<lambda>col l. array_set l (Num col) v) [0..int k - 1] l)) =
       max (length (elems l)) k"
proof (induction k)
  case 0
  then show ?case by simp
next
  case (Suc k)
  have "[0..int (Suc k) - 1] = [0..int k - 1] @ [int k]"
    using upto_snoc [of "int k"] by simp
  with Suc show ?case
    by (auto simp: array_set_def is_index_def)
qed

lemma eighty_characters:
  assumes "\<forall>k < 80. k < length t \<and> t ! k = of_char CHR ''A''"
  shows "\<exists>s' r'. processOutput t (addToReplayLog ''output'' t fresh) = processOutput_loop t 80 s' \<and>
           tidy s' \<and> region_full s' \<and> cursorX s' = 80 \<and> cursorY s' = Num 0 \<and>
           rows s' = 24 \<and> cols s' = 80 \<and>
           array_get (screen s') (Num 0) = Some r' \<and> length (elems r') = 80"
proof -
  let ?s = "addToReplayLog ''output'' t fresh"
  from fresh_tidy have t: "tidy ?s" "region_full ?s" by (simp_all add: tidy_defs)
  have r: "array_get (screen ?s) (cursorY ?s) = Some (new_row 80 default_attributes)"
    "length (elems (new_row 80 default_attributes)) = nat (cols ?s)"
    by (simp_all add: array_get_def is_index_def new_row_closed)
  from assms have k: "\<forall>k. 0 \<le> k \<and> k < 0 + 80 \<longrightarrow> k < length t \<and> t ! k = of_char CHR ''A''" by simp
  from insert_steps [OF t _ k _ _ r] obtain s' r' where
    "processOutput_loop t 0 ?s = processOutput_loop t (0 + 80) s'" "tidy s'" "region_full s'"
    "cursorX s' = cursorX ?s + int 80" "cursorY s' = cursorY ?s" "rows s' = rows ?s"
    "cols s' = cols ?s" "array_get (screen s') (cursorY s') = Some r'"
    "length (elems r') = nat (cols s')"
    by auto
  then show ?thesis
    by (intro exI [of _ s'] exI [of _ r']) (simp add: processOutput_def)
qed


section \<open>The values of the scroll region\<close>

text \<open>
  Only \<open>setScrollRegion\<close> and \<open>resize\<close> assign the scroll region. The parameters of a
  CSI sequence are not negative, so on every state that a sequence of writes and resizes
  reaches from the fresh terminal the top of the region is a non-negative integer or
  \<^verbatim>\<open>Infinity\<close> and the bottom is below \<^verbatim>\<open>Infinity\<close>.
\<close>

lemma region_sound_simple [simp]:
  "region_sound (clearRow r s) = region_sound s" "region_sound (scrollUp s) = region_sound s"
  "region_sound (scrollDown s) = region_sound s" "region_sound (setMode ps e s) = region_sound s"
  "region_sound (lineFeed s) = region_sound s" "region_sound (index s) = region_sound s"
  "region_sound (reverseIndex s) = region_sound s" "region_sound (nextLine s) = region_sound s"
  "region_sound (tab s) = region_sound s" "region_sound (backspace s) = region_sound s"
  "region_sound (cursorUp n s) = region_sound s" "region_sound (cursorDown n s) = region_sound s"
  "region_sound (cursorLeft n s) = region_sound s" "region_sound (cursorRight n s) = region_sound s"
  "region_sound (setCursorPosition y x s) = region_sound s"
  "region_sound (setGraphicsRendition ps s) = region_sound s"
  "region_sound (saveCursor s) = region_sound s" "region_sound (restoreCursor s) = region_sound s"
  "region_sound (addToReplayLog ty d s) = region_sound s"
  "region_sound (s\<lparr>cursorX := c\<rparr>) = region_sound s"
  by (simp_all add: region_sound_def lineFeed_def index_def reverseIndex_def nextLine_def tab_def
      backspace_def cursorUp_def cursorDown_def cursorLeft_def cursorRight_def
      setCursorPosition_def setGraphicsRendition_def saveCursor_def restoreCursor_def Let_def
      split: option.splits)

lemma insertCharacter_region: "insertCharacter c s = Inr s' \<Longrightarrow> region_sound s' = region_sound s"
  by (auto simp: insertCharacter_def Let_def region_sound_def lineFeed_def
      split: option.splits if_splits)

lemma eraseLine_region: "eraseLine mode s = Inr s' \<Longrightarrow> region_sound s' = region_sound s"
  by (auto simp: eraseLine_def Let_def region_sound_def split: option.splits if_splits)

lemma clearRows_region: "clearRows a b s = Some s' \<Longrightarrow> region_sound s' = region_sound s"
  by (induction rule: clearRows_induct) simp_all

lemma eraseDisplay_region:
  "eraseDisplay mode s = Some (Inr s') \<Longrightarrow> region_sound s' = region_sound s"
  by (auto simp: eraseDisplay_def split: if_splits sum.splits
      dest!: eraseLine_region clearRows_region)

lemma sub_one_nonneg: "le (Num 1) n \<Longrightarrow> le (Num 0) (sub n (Num 1))"
proof -
  assume "le (Num 1) n"
  then consider "n = Infinity" | k where "n = Num k" "1 \<le> k" by (auto simp: le_one)
  then show ?thesis
  proof cases
    case 1
    then show ?thesis by (simp add: sub_def)
  next
    case 2
    with number_of_nonneg [of "k - 1"] show ?thesis by (simp add: sub_def)
  qed
qed

lemma min_below: "y \<noteq> NaN \<Longrightarrow> lt (Math_min (Num r) y) Infinity"
  by (cases y) (simp_all add: Math_min_def)

lemma number_of_number [simp]: "number_of x \<noteq> NaN"
  by (simp add: number_of_def Let_def)

lemma setScrollRegion_sound:
  assumes "le (Num 1) tp" "bt \<noteq> NaN"
  shows "region_sound (setScrollRegion tp bt s)"
proof -
  from sub_one_nonneg [OF assms(1)] have "le (Num 0) (Math_max (Num 0) (sub tp (Num 1)))"
    by (cases "sub tp (Num 1)") (simp_all add: Math_max_def)
  moreover from assms(2) have "sub bt (Num 1) \<noteq> NaN"
    by (cases bt) (simp_all add: sub_def)
  then have "lt (Math_min (Num (rows s - 1)) (sub bt (Num 1))) Infinity" by (rule min_below)
  ultimately show ?thesis
    by (simp add: region_sound_def setScrollRegion_def setCursorPosition_def)
qed

lemma csiCommand_region:
  assumes "csiCommand c ps s = Some (Inr s')" "\<forall>p \<in> set ps. le (Num 0) p" "region_sound s"
  shows "region_sound s'"
proof (cases "c = of_char CHR ''r''")
  case True
  have "le (Num 1) (param_or ps 0 (Num 1))" by (rule param_or_pos [OF assms(2)]) simp
  moreover have "param_or ps 1 (Num (rows s)) \<noteq> NaN" by (simp add: param_or_def falsy_def)
  ultimately have "region_sound (setScrollRegion (param_or ps 0 (Num 1)) (param_or ps 1 (Num (rows s))) s)"
    by (rule setScrollRegion_sound)
  with True assms(1) show ?thesis by (simp add: csiCommand_def)
next
  case False
  with assms(1,3) show ?thesis
    unfolding csiCommand_def
    by (auto split: if_splits dest: eraseLine_region eraseDisplay_region)
qed

lemma processCSISequence_region:
  assumes "processCSISequence t st s = Some (Inr (j, s'))" "region_sound s"
  shows "region_sound s'"
proof -
  obtain q i where c: "collectParams t st [] = (q, i)" by (cases "collectParams t st []")
  let ?ps = "if q \<noteq> [] then map parseInt_or0 (split (of_char CHR '';'') q) else []"
  from params_nonneg [OF c] have "\<forall>p \<in> set ?ps. le (Num 0) p" by auto
  with assms c csiCommand_region [of "t ! i" ?ps s s'] show ?thesis
    by (auto simp: processCSISequence_def Let_def split: if_splits sum.splits option.splits)
qed

lemma processEscapeSequence_region:
  assumes "processEscapeSequence t i s = Some (Inr (j, s'))" "region_sound s"
  shows "region_sound s'"
  using assms
  by (auto simp: processEscapeSequence_def Let_def split: if_splits
      dest: processCSISequence_region)

lemma processUnit_region:
  assumes "processUnit t i s = Some (Inr (j, s'))" "region_sound s"
  shows "region_sound s'"
  using assms
  by (auto simp: processUnit_def Let_def split: if_splits sum.splits
      dest: processEscapeSequence_region insertCharacter_region)

lemma processOutput_loop_region:
  "processOutput_loop t i s = Some (Inr s') \<Longrightarrow> region_sound s \<Longrightarrow> region_sound s'"
proof (induction t i s rule: processOutput_loop.induct)
  case (1 t i s)
  show ?case
  proof (cases "i < length t")
    case False
    with "1.prems" show ?thesis by (subst (asm) processOutput_loop.simps) simp
  next
    case True
    with "1.prems" obtain j s1 where u: "processUnit t i s = Some (Inr (j, s1))"
      and l: "processOutput_loop t j s1 = Some (Inr s')"
      by (subst (asm) processOutput_loop.simps) (auto split: sum.splits option.splits)
    from "1.IH" [OF True u refl refl l] processUnit_region [OF u "1.prems"(2)] show ?thesis by simp
  qed
qed

lemma write'_region: "write' d s = Some (Inr s') \<Longrightarrow> region_sound s \<Longrightarrow> region_sound s'"
  using processOutput_loop_region [of d 0 _ s']
  by (auto simp: write'_def processOutput_def split: if_splits)

lemma resize_region: "resize r c s = Inr s' \<Longrightarrow> region_sound s \<Longrightarrow> region_sound s'"
  by (auto simp: resize_def Let_def region_sound_def split: if_splits sum.splits)

lemma run_region: "run ops s = Some (Inr s') \<Longrightarrow> region_sound s \<Longrightarrow> region_sound s'"
proof (induction ops arbitrary: s)
  case Nil
  then show ?case by simp
next
  case (Cons x ops)
  from Cons.prems(1) obtain s1 where p: "perform x s = Some (Inr s1)"
    and r: "run ops s1 = Some (Inr s')"
    by (auto split: sum.splits option.splits)
  from p Cons.prems(2) have "region_sound s1"
    by (cases x) (auto dest: write'_region resize_region)
  with Cons.IH [OF r] show ?case .
qed

lemma reachable_region:
  assumes "run ops fresh = Some (Inr s)"
  shows "region_sound s"
proof -
  have "region_sound fresh" by (simp add: region_sound_def fresh_def initializeScreen_def)
  with assms show ?thesis by (rule run_region)
qed

section \<open>Row width\<close>

text \<open>
  Claim C4. With the cursor one past the last column, erase-to-cursor (CSI 1 K) runs its
  loop up to column \<open>cursorX = cols\<close> included and stores a cell at index 80: row 0 then
  has 81 cells on an 80-column terminal.
\<close>

theorem erase_to_cursor_widens_row:
  "\<exists>s' r. write' (replicate 80 (of_char CHR ''A'') @ [ESC] @ str ''[1K'') fresh = Some (Inr s') \<and>
     cols s' = 80 \<and> array_get (screen s') (Num 0) = Some r \<and> length (elems r) = 81"
proof -
  let ?t = "replicate 80 65 @ [27, 91, 49, 75]"
  have t: "replicate 80 (of_char CHR ''A'') @ [ESC] @ str ''[1K'' = ?t"
    by (simp add: str_def ESC_def)
  have "\<forall>k < 80. k < length ?t \<and> ?t ! k = of_char CHR ''A''"
    by (simp add: nth_append)
  from eighty_characters [OF this] obtain s r where
    s: "processOutput ?t (addToReplayLog ''output'' ?t fresh) = processOutput_loop ?t 80 s"
      "tidy s" "cursorX s = 80" "cursorY s = Num 0" "rows s = 24" "cols s = 80"
      "array_get (screen s) (Num 0) = Some r" "length (elems r) = 80"
    by blast
  let ?r' = "fold (\<lambda>col l. array_set l (Num col) (Some (blank (attributes s)))) [0..80] r"
  let ?s' = "s\<lparr>screen := array_set (screen s) (Num 0) (Some ?r')\<rparr>"
  have c: "collectParams (replicate 80 65 @ [27, 91, 49, 75]) 82 [] = ([49], 83)"
    by (simp add: collectParams.simps isParamChar_def nth_append)
  from s have e: "eraseLine (Num 1) s = Inr ?s'" by (simp add: eraseLine_def)
  have u: "processUnit ?t 80 s = Some (Inr (84, ?s'))"
    by (simp add: processUnit_def processEscapeSequence_def processCSISequence_def c csiCommand_def
        param_or_def falsy_def parseInt_or0_def number_of_exact e nth_append ESC_def)
  have "processOutput_loop ?t 80 s = processOutput_loop ?t 84 ?s'"
    by (subst processOutput_loop.simps) (simp add: u)
  also have "\<dots> = Some (Inr ?s')"
    by (subst processOutput_loop.simps) simp
  finally have w: "write' ?t fresh = Some (Inr ?s')"
    using s(1) by (simp add: write'_def enableReplay_def)
  from s(2) have "0 < length (elems (screen s))" by (simp add: tidy_defs rows_ok_def s)
  then have g: "array_get (screen ?s') (Num 0) = Some ?r'"
    by (simp add: array_get_set_same)
  from fill_length [of 81 "Some (blank (attributes s))" r] s(8) have "length (elems ?r') = 81"
    by simp
  with w g s(6) show ?thesis unfolding t by auto
qed

section \<open>The capacity of the scrollback\<close>

lemma lineFeed_rows [simp]: "rows (lineFeed s) = rows s" "cols (lineFeed s) = cols s"
  by (simp_all add: lineFeed_def)

lemma lineFeeds_tidy:
  "tidy s \<Longrightarrow> region_full s \<Longrightarrow>
     tidy ((lineFeed ^^ n) s) \<and> region_full ((lineFeed ^^ n) s) \<and> rows ((lineFeed ^^ n) s) = rows s"
  by (induction n) (auto simp: lineFeed_tidy)

lemma resize_shrink_scrollback:
  assumes "tidy s" "region_full s" "1 \<le> r" "r < rows s" "1 \<le> c"
  shows "\<exists>s'. resize r c s = Inr s' \<and>
           length (scrollback s') = length (scrollback s) + nat (rows s - r)"
proof -
  from assms have g: "grid s" and b: "r \<le> 4294967295" by (simp_all add: tidy_def grid_def)
  from resize_tidy [OF assms(1,2,3) b assms(5)] obtain s' where s': "resize r c s = Inr s'" by blast
  have "\<forall>k \<in> set [r..rows s - 1]. array_get (screen s) (Num k) \<noteq> None"
    using grid_get [OF g] assms(3) by fastforce
  then have "filter (\<lambda>line. line \<noteq> None) (map (\<lambda>k. array_get (screen s) (Num k)) [r..rows s - 1]) =
      map (\<lambda>k. array_get (screen s) (Num k)) [r..rows s - 1]"
    by (simp add: filter_id_conv)
  with s' assms(4) have "length (scrollback s') = length (scrollback s) + length [r..rows s - 1]"
    by (auto simp: resize_def Let_def split: sum.splits)
  with s' assms(4) show ?thesis by simp
qed

text \<open>
  Claim C6. \<open>scrollUp\<close> trims the scrollback when a push takes it past
  \<open>maxScrollback\<close>; \<open>resize\<close> pushes the rows it removes and never trims. After
  10023 line feeds the scrollback holds 10000 rows, and shrinking the terminal to one
  row adds the 23 rows removed: 10023 rows, more than \<open>maxScrollback\<close>.
\<close>

theorem resize_overfills_scrollback:
  "\<exists>s'. run [Write (replicate 10023 LF), Resize 1 80] fresh = Some (Inr s') \<and>
     length (scrollback s') = 10023 \<and> maxScrollback < int (length (scrollback s'))"
proof -
  let ?s0 = "addToReplayLog ''output'' (replicate 10023 LF) fresh"
  let ?s1 = "(lineFeed ^^ 23) ?s0"
  let ?s2 = "(lineFeed ^^ 10000) ?s1"
  have w: "write' (replicate 10023 LF) fresh = Some (Inr ?s2)"
    using write'_LF [of fresh "10000 + 23"] by (simp only: funpow_add o_apply) simp
  from fresh_tidy have t0: "tidy ?s0" "region_full ?s0" by (simp_all add: tidy_defs)
  from lineFeeds_tidy [OF t0, of 23] have t1: "tidy ?s1" "region_full ?s1" "rows ?s1 = 24" by simp_all
  from lineFeeds_tidy [OF t1(1,2), of 10000] t1(3)
  have t2: "tidy ?s2" "region_full ?s2" "rows ?s2 = 24" by simp_all
  from lineFeed_climb [of ?s0 0 23 23]
  have 1: "cursorY ?s1 = Num 23" "scrollBottom ?s1 = Num 23" "scrollback ?s1 = []" by simp_all
  with lineFeed_scroll [of ?s1 23 10000] have l: "length (scrollback ?s2) = 10000" by simp
  from resize_shrink_scrollback [OF t2(1,2), of 1 80] t2(3) l obtain s' where
    "resize 1 80 ?s2 = Inr s'" "length (scrollback s') = 10023"
    by auto
  with w show ?thesis by (simp add: maxScrollback_def)
qed

section \<open>Copying a selection\<close>

lemma trimEnd_unchanged: "t \<noteq> [] \<Longrightarrow> \<not> isWhiteSpace (last t) \<Longrightarrow> trimEnd t = t"
  by (cases t rule: rev_cases) (simp_all add: trimEnd_def)

lemma trimStart_unchanged: "t \<noteq> [] \<Longrightarrow> \<not> isWhiteSpace (hd t) \<Longrightarrow> trimStart t = t"
  by (cases t) (simp_all add: trimStart_def)

lemma lineText_cells:
  assumes "array_get (screen s) (Num r) = Some line"
  shows "lineText s r cs =
    concat (map (\<lambda>col. case array_get line (Num col) of None \<Rightarrow> [] | Some c \<Rightarrow> [char c]) cs)"
proof -
  have "fold (\<lambda>col t. case Some line of None \<Rightarrow> t
          | Some line \<Rightarrow> (case array_get line (Num col) of None \<Rightarrow> t | Some c \<Rightarrow> t @ [char c])) cs t0 =
        t0 @ concat (map (\<lambda>col. case array_get line (Num col) of None \<Rightarrow> [] | Some c \<Rightarrow> [char c]) cs)" for t0
    by (induction cs arbitrary: t0) (auto split: option.splits)
  with assms show ?thesis by (simp add: lineText_def)
qed

text \<open>
  Claim C9. \<open>copySelection\<close> strips whitespace once, from the two ends of the joined
  text, and not from each row. After writing A, CR, LF, B the selection from (0, 0) to
  (1, 0) is the A, the 79 blanks that follow it in row 0, a line feed and the B: the
  trailing whitespace of row 0 is part of the result.
\<close>

theorem copySelection_keeps_row_blanks:
  "\<exists>s'. write' (str ''A'' @ [13, LF] @ str ''B'') fresh = Some (Inr s') \<and>
     copySelection 0 0 1 0 s' = Inr (of_char CHR ''A'' # replicate 79 32 @ [LF, of_char CHR ''B'']) \<and>
     copySelection 0 0 1 0 s' \<noteq> Inr (str ''A'' @ [LF] @ str ''B'')"
proof -
  let ?rowA = "\<lparr>elems = (replicate 80 (Some (blank default_attributes)))
                  [0 := Some \<lparr>char = 65, cell_attributes = default_attributes\<rparr>], props = (\<lambda>k. None)\<rparr>"
  let ?rowB = "\<lparr>elems = (replicate 80 (Some (blank default_attributes)))
                  [0 := Some \<lparr>char = 66, cell_attributes = default_attributes\<rparr>], props = (\<lambda>k. None)\<rparr>"
  obtain s' where w: "write' (str ''A'' @ [13, LF] @ str ''B'') fresh = Some (Inr s')"
    and f: "cols s' = 80" "array_get (screen s') (Num 0) = Some ?rowA"
      "array_get (screen s') (Num 1) = Some ?rowB"
    by (simp add: fresh_closed parser_eval command_eval new_row_closed)
  have a: "concat (map (\<lambda>col. case array_get ?rowA (Num col) of None \<Rightarrow> [] | Some c \<Rightarrow> [char c]) [0..79]) =
      65 # replicate 79 32"
    by code_simp
  have b: "concat (map (\<lambda>col. case array_get ?rowB (Num col) of None \<Rightarrow> [] | Some c \<Rightarrow> [char c]) [0]) = [66]"
    by code_simp
  have j: "lineText s' 0 [0..79] = 65 # replicate 79 32" "lineText s' 1 [0] = [66]"
    using a b by (simp_all add: lineText_cells f)
  have r: "[0..1::int] = [0, 1]" by (simp add: upto.simps)
  have "fold (\<lambda>r t. t @ lineText s' r [(if r = 0 then 0 else 0)..(if r = 1 then 0 else cols s' - 1)] @
                    (if r < 1 then [LF] else [])) [0..1] [] = 65 # replicate 79 32 @ [LF, 66]"
    by (simp add: r j f)
  moreover have "trim (65 # replicate 79 32 @ [LF, 66]) = 65 # replicate 79 32 @ [LF, 66]"
    by (simp add: trim_def trimStart_unchanged trimEnd_unchanged isWhiteSpace_def)
  ultimately have "copySelection 0 0 1 0 s' = Inr (65 # replicate 79 32 @ [LF, 66])"
    by (simp add: copySelection_def enableClipboard_def Let_def)
  with w show ?thesis by (auto simp: str_def)
qed

section \<open>Replay\<close>

lemma nth_extended:
  assumes "length xs \<le> n" "m \<le> n"
  shows "(xs @ replicate (n - length xs) None @ [v]) ! m =
     (if m < length xs then xs ! m else if m = n then v else None)"
proof (cases "m < length xs")
  case True
  then show ?thesis by (simp add: nth_append)
next
  case False
  show ?thesis
  proof (cases "m = n")
    case True
    with assms False show ?thesis by (simp add: nth_append)
  next
    case neq: False
    with assms False have "m - length xs < n - length xs" by simp
    with assms False neq show ?thesis by (simp add: nth_append)
  qed
qed

lemma array_get_set_index:
  assumes "is_index i" "is_index k"
  shows "array_get (array_set a (Num i) v) (Num k) = (if k = i then v else array_get a (Num k))"
proof -
  from assms have eq: "nat k = nat i \<longleftrightarrow> k = i" "nat i = nat k \<longleftrightarrow> k = i"
    by (auto simp: is_index_def)
  show ?thesis
  proof (cases "nat i < length (elems a)")
    case True
    with assms eq show ?thesis
      by (simp add: array_get_def array_set_def nth_list_update)
  next
    case False
    then have l: "length (elems a) \<le> nat i" by simp
    show ?thesis
    proof (cases "nat k \<le> nat i")
      case True
      with assms eq l False nth_extended [OF l True, of v] show ?thesis
        by (auto simp: array_get_def array_set_def)
    next
      case False
      with assms eq l show ?thesis
        by (auto simp: array_get_def array_set_def)
    qed
  qed
qed

lemma array_get_set:
  "array_get (array_set a i v) k = (if k = i then v else array_get a k)"
proof (cases "\<exists>x. i = Num x \<and> is_index x")
  case False
  then show ?thesis
    by (auto simp: array_get_def array_set_def split: number.splits)
next
  case True
  then obtain x where i: "i = Num x" "is_index x" by blast
  show ?thesis
  proof (cases "\<exists>y. k = Num y \<and> is_index y")
    case False
    with i show ?thesis
      by (auto simp: array_get_def array_set_def split: number.splits)
  next
    case True
    then obtain y where "k = Num y" "is_index y" by blast
    with i array_get_set_index [of x y a v] show ?thesis by simp
  qed
qed

lemma array_get_fill:
  "array_get (fold (\<lambda>col l. array_set l (Num col) v) cs l) c =
     (if c \<in> Num ` set cs then v else array_get l c)"
  by (induction cs arbitrary: l) (auto simp: array_get_set)

lemma array_get_moved_up:
  "array_get (fold (\<lambda>r a. array_set a (Num r) (array_get a (Num (r + 1)))) [l..u] a) k =
     (case k of
        Num x \<Rightarrow> if l \<le> x \<and> x \<le> u then array_get a (Num (x + 1)) else array_get a k
      | _ \<Rightarrow> array_get a k)"
proof (induction l u arbitrary: a rule: upto.induct)
  case (1 l u)
  show ?case
  proof (cases "l \<le> u")
    case False
    then show ?thesis by (auto split: number.splits)
  next
    case True
    then have u: "[l..u] = l # [l + 1..u]" by (simp add: upto_rec1)
    from "1.IH" [OF True] True show ?thesis
      unfolding u by (auto simp: array_get_set split: number.splits)
  qed
qed

lemma array_get_moved_down:
  "array_get (fold (\<lambda>r a. array_set a (Num r) (array_get a (Num (r - 1)))) (rev [l..u]) a) k =
     (case k of
        Num x \<Rightarrow> if l \<le> x \<and> x \<le> u then array_get a (Num (x - 1)) else array_get a k
      | _ \<Rightarrow> array_get a k)"
proof (induction "nat (u + 1 - l)" arbitrary: u a)
  case 0
  then show ?case by (auto split: number.splits)
next
  case (Suc n)
  then have lu: "l \<le> u" and n: "n = nat (u - 1 + 1 - l)" by simp_all
  then have u: "[l..u] = [l..u - 1] @ [u]" by (simp add: upto_rec2)
  from Suc.hyps(1) [OF n] lu show ?case
    unfolding u by (auto simp: array_get_set split: number.splits)
qed

lemma array_get_empty [simp]: "array_get array_empty k = None"
  by (simp add: array_get_def array_empty_def split: number.splits)

lemma row_glyph_new_row: "row_glyph (new_row n a) = blank_glyph n"
  by (auto simp: row_glyph_def new_row_def array_get_fill blank_glyph_def blank_def fun_eq_iff
      split: number.splits)

lemma row_glyph_set:
  "row_glyph (array_set l x (Some c)) = (row_glyph l)(x := Some (char c))"
  by (auto simp: row_glyph_def array_get_set)

lemma row_glyph_fill:
  "row_glyph (fold (\<lambda>col l. array_set l (Num col) (Some (blank a))) cs l) =
     (\<lambda>col. if col \<in> Num ` set cs then Some 32 else row_glyph l col)"
  by (auto simp: row_glyph_def array_get_fill blank_def)

lemma glyph_clearRow:
  "glyph (clearRow r s) k = (if k = r then Some (blank_glyph (cols s)) else glyph s k)"
  by (simp add: glyph_def clearRow_def array_get_set row_glyph_new_row)

lemma glyph_fold_clearRow:
  "glyph (fold clearRow rs s) k = (if k \<in> set rs then Some (blank_glyph (cols s)) else glyph s k)"
  by (induction rs arbitrary: s) (auto simp: glyph_clearRow)

text \<open>The row that ends at a key after the loop of \<open>scrollUp\<close> or \<open>scrollDown\<close>.\<close>

lemma glyph_scrollUp:
  "glyph (scrollUp s) k =
     (if k = scrollBottom s then Some (blank_glyph (cols s))
      else (case (scrollTop s, scrollBottom s, k) of
              (Num t, Num b, Num x) \<Rightarrow> if t \<le> x \<and> x \<le> b - 1 then glyph s (Num (x + 1)) else glyph s k
            | _ \<Rightarrow> glyph s k))"
  by (simp add: glyph_def scrollUp_def Let_def clearRow_def array_get_set array_get_moved_up
      row_glyph_new_row rows_up_def split: number.splits)

lemma glyph_scrollDown:
  "glyph (scrollDown s) k =
     (if k = scrollTop s then Some (blank_glyph (cols s))
      else (case (scrollTop s, scrollBottom s, k) of
              (Num t, Num b, Num x) \<Rightarrow> if t + 1 \<le> x \<and> x \<le> b then glyph s (Num (x - 1)) else glyph s k
            | _ \<Rightarrow> glyph s k))"
  by (simp add: glyph_def scrollDown_def Let_def clearRow_def array_get_set array_get_moved_down
      row_glyph_new_row rows_down_def split: number.splits)

lemma glyph_scalar [simp]:
  "glyph (s\<lparr>cursorX := x\<rparr>) = glyph s" "glyph (s\<lparr>cursorY := y\<rparr>) = glyph s"
  "glyph (s\<lparr>scrollTop := tp\<rparr>) = glyph s" "glyph (s\<lparr>scrollBottom := bt\<rparr>) = glyph s"
  "glyph (s\<lparr>attributes := a\<rparr>) = glyph s" "glyph (s\<lparr>savedCursor := c\<rparr>) = glyph s"
  "glyph (s\<lparr>sessionLog := l\<rparr>) = glyph s" "glyph (s\<lparr>applicationCursor := b\<rparr>) = glyph s"
  "glyph (s\<lparr>replayIndex := n\<rparr>) = glyph s"
  by (simp_all add: glyph_def fun_eq_iff)

lemma sim_result_Inr [simp]: "sim_result (Inr s1) (Inr s2) = sim s1 s2"
  by (simp add: sim_result_def)

lemma sim_result_Inl [simp]: "sim_result (Inl e) r"
  by (simp add: sim_result_def)

lemma glyph_screen: "screen s' = screen s \<Longrightarrow> glyph s' = glyph s"
  by (simp add: glyph_def fun_eq_iff)

lemma sim_scalar:
  assumes "sim s1 s2"
  shows "sim (s1\<lparr>cursorX := 0\<rparr>) (s2\<lparr>cursorX := 0\<rparr>)"
    "sim (tab s1) (tab s2)" "sim (backspace s1) (backspace s2)"
    "sim (cursorUp n s1) (cursorUp n s2)" "sim (cursorDown n s1) (cursorDown n s2)"
    "sim (cursorLeft n s1) (cursorLeft n s2)" "sim (cursorRight n s1) (cursorRight n s2)"
    "sim (setCursorPosition y x s1) (setCursorPosition y x s2)"
    "sim (setGraphicsRendition ps s1) (setGraphicsRendition ps s2)"
    "sim (saveCursor s1) (saveCursor s2)"
  using assms
  by (auto simp: sim_def visible_def saved_position_def tab_def backspace_def cursorUp_def
      cursorDown_def cursorLeft_def cursorRight_def setCursorPosition_def
      setGraphicsRendition_def saveCursor_def Let_def)

lemma add_one_NaN [simp]: "add a (Num b) = NaN \<longleftrightarrow> a = NaN"
  by (cases a) (auto simp: number_of_def Let_def)

lemma region_clamped:
  assumes "tp \<noteq> NaN" "bt \<noteq> NaN"
  shows "le (Num 0) (Math_max (Num 0) (sub tp (Num 1)))"
    "le (Math_min (Num r) (sub bt (Num 1))) (Num r)"
proof -
  from assms have n: "sub tp (Num 1) \<noteq> NaN" "sub bt (Num 1) \<noteq> NaN" by (simp_all add: sub_def)
  from n(1) show "le (Num 0) (Math_max (Num 0) (sub tp (Num 1)))"
    by (cases "sub tp (Num 1)") (simp_all add: Math_max_def le_def)
  from n(2) show "le (Math_min (Num r) (sub bt (Num 1))) (Num r)"
    by (cases "sub bt (Num 1)") (simp_all add: Math_min_def le_def)
qed

lemma sim_setScrollRegion:
  assumes "sim s1 s2" "tp \<noteq> NaN" "bt \<noteq> NaN"
  shows "sim (setScrollRegion tp bt s1) (setScrollRegion tp bt s2)"
  using assms(1) region_clamped [OF assms(2,3)]
  by (auto simp: sim_def visible_def saved_position_def setCursorPosition_def setScrollRegion_def)

lemma param_or_number: "d \<noteq> NaN \<Longrightarrow> param_or ps k d \<noteq> NaN"
  by (simp add: param_or_def falsy_def)

lemma sim_restoreCursor:
  assumes "sim s1 s2"
  shows "sim (restoreCursor s1) (restoreCursor s2)"
proof (cases "savedCursor s1")
  case None
  with assms have "savedCursor s2 = None" by (simp add: sim_def saved_position_def)
  with None assms show ?thesis by (simp add: restoreCursor_def)
next
  case (Some c1)
  with assms have "\<exists>c2. savedCursor s2 = Some c2 \<and> saved_x c2 = saved_x c1 \<and> saved_y c2 = saved_y c1"
    by (cases "savedCursor s2") (auto simp: sim_def saved_position_def)
  then obtain c2 where "savedCursor s2 = Some c2" "saved_x c2 = saved_x c1" "saved_y c2 = saved_y c1"
    by blast
  with Some assms show ?thesis
    by (auto simp: restoreCursor_def sim_def visible_def saved_position_def)
qed

lemma sim_setMode:
  assumes "sim s1 s2"
  shows "sim (setMode ps e s1) (setMode ps e s2)"
  using assms glyph_screen [of "setMode ps e s1" s1] glyph_screen [of "setMode ps e s2" s2]
  by (auto simp: sim_def visible_def saved_position_def)

lemma sim_scrollUp:
  assumes "sim s1 s2"
  shows "sim (scrollUp s1) (scrollUp s2)"
proof -
  from assms have v: "visible s1" and g: "\<forall>k. glyph s1 k \<noteq> None \<longrightarrow> glyph s2 k = glyph s1 k"
    and f: "scrollTop s2 = scrollTop s1" "scrollBottom s2 = scrollBottom s1" "cols s2 = cols s1"
    by (simp_all add: sim_def)
  have "glyph (scrollUp s2) k = glyph (scrollUp s1) k" if "glyph (scrollUp s1) k \<noteq> None" for k
    using that g by (auto simp: glyph_scrollUp f split: if_splits number.splits)
  moreover have "visible (scrollUp s1)"
    using v by (auto simp: visible_def glyph_scrollUp le_def split: number.splits)
  ultimately show ?thesis using assms
    by (simp add: sim_def saved_position_def)
qed

lemma sim_scrollDown:
  assumes "sim s1 s2"
  shows "sim (scrollDown s1) (scrollDown s2)"
proof -
  from assms have v: "visible s1" and g: "\<forall>k. glyph s1 k \<noteq> None \<longrightarrow> glyph s2 k = glyph s1 k"
    and f: "scrollTop s2 = scrollTop s1" "scrollBottom s2 = scrollBottom s1" "cols s2 = cols s1"
    by (simp_all add: sim_def)
  have "glyph (scrollDown s2) k = glyph (scrollDown s1) k" if "glyph (scrollDown s1) k \<noteq> None" for k
    using that g by (auto simp: glyph_scrollDown f split: if_splits number.splits)
  moreover have "visible (scrollDown s1)"
    using v by (auto simp: visible_def glyph_scrollDown le_def split: number.splits)
  ultimately show ?thesis using assms
    by (simp add: sim_def saved_position_def)
qed

lemma sim_cursorY:
  "sim s1 s2 \<Longrightarrow> sim (s1\<lparr>cursorY := y\<rparr>) (s2\<lparr>cursorY := y\<rparr>)"
  by (auto simp: sim_def visible_def saved_position_def)

lemma sim_lineFeed:
  assumes "sim s1 s2"
  shows "sim (lineFeed s1) (lineFeed s2)"
proof -
  from assms have e: "cursorY s1 = cursorY s2" "scrollBottom s1 = scrollBottom s2"
    by (simp_all add: sim_def)
  with assms show ?thesis
    by (cases "strict_eq (cursorY s2) (scrollBottom s2)")
      (simp_all add: lineFeed_def sim_scrollUp sim_cursorY)
qed

lemma sim_index:
  assumes "sim s1 s2"
  shows "sim (index s1) (index s2)"
proof -
  from assms have e: "cursorY s1 = cursorY s2" "scrollBottom s1 = scrollBottom s2"
    by (simp_all add: sim_def)
  with assms show ?thesis
    by (cases "strict_eq (cursorY s2) (scrollBottom s2)")
      (simp_all add: index_def sim_scrollUp sim_cursorY)
qed

lemma sim_reverseIndex:
  assumes "sim s1 s2"
  shows "sim (reverseIndex s1) (reverseIndex s2)"
proof -
  from assms have e: "cursorY s1 = cursorY s2" "scrollTop s1 = scrollTop s2"
    by (simp_all add: sim_def)
  with assms show ?thesis
    by (cases "strict_eq (cursorY s2) (scrollTop s2)")
      (simp_all add: reverseIndex_def sim_scrollDown sim_cursorY)
qed

lemma sim_nextLine: "sim s1 s2 \<Longrightarrow> sim (nextLine s1) (nextLine s2)"
  unfolding nextLine_def by (intro sim_index sim_scalar(1))

lemma sim_cursorX:
  "sim s1 s2 \<Longrightarrow> sim (s1\<lparr>cursorX := x\<rparr>) (s2\<lparr>cursorX := x\<rparr>)"
  by (auto simp: sim_def visible_def saved_position_def)

lemma sim_fields:
  assumes "sim s1 s2"
  shows "cursorX s1 = cursorX s2" "cursorY s1 = cursorY s2" "rows s1 = rows s2" "cols s1 = cols s2"
    "scrollTop s1 = scrollTop s2" "scrollBottom s1 = scrollBottom s2" "wraparound s1 = wraparound s2"
  using assms by (simp_all add: sim_def)

lemma sim_row:
  assumes "sim s1 s2" "array_get (screen s1) y = Some r1"
  shows "\<exists>r2. array_get (screen s2) y = Some r2 \<and> row_glyph r2 = row_glyph r1"
proof -
  from assms(2) have "glyph s1 y = Some (row_glyph r1)" by (simp add: glyph_def)
  with assms(1) have "glyph s2 y = Some (row_glyph r1)" by (simp add: sim_def)
  then show ?thesis by (auto simp: glyph_def)
qed

lemma glyph_store:
  "glyph (s\<lparr>screen := array_set (screen s) y (Some r)\<rparr>) k =
     (if k = y then Some (row_glyph r) else glyph s k)"
  by (simp add: glyph_def array_get_set)

lemma sim_store:
  assumes "sim s1 s2" "row_glyph r1 = row_glyph r2"
  shows "sim (s1\<lparr>screen := array_set (screen s1) y (Some r1)\<rparr>)
             (s2\<lparr>screen := array_set (screen s2) y (Some r2)\<rparr>)"
  using assms by (auto simp: sim_def visible_def saved_position_def glyph_store)

lemma sim_restore:
  assumes "sim s1 s2" "array_get (screen s2) y = Some r2"
  shows "sim s1 (s2\<lparr>screen := array_set (screen s2) y (Some r2)\<rparr>)"
proof -
  from assms(2) have "glyph s2 y = Some (row_glyph r2)" by (simp add: glyph_def)
  with assms(1) show ?thesis
    by (auto simp: sim_def saved_position_def glyph_store)
qed

lemma sim_insertCharacter:
  assumes "sim s1 s2"
  shows "sim_result (insertCharacter c s1) (insertCharacter c s2)"
proof -
  define w where "w = (\<lambda>s. if cursorX s \<ge> cols s
                then (if wraparound s then lineFeed (s\<lparr>cursorX := 0\<rparr>)
                      else s\<lparr>cursorX := cols s - 1\<rparr>)
                else s)"
  from sim_fields [OF assms] have w: "sim (w s1) (w s2)"
    using sim_lineFeed [OF sim_cursorX [OF assms, of 0]] sim_cursorX [OF assms, of "cols s2 - 1"] assms
    by (simp add: w_def)
  have i: "insertCharacter c s =
      (case array_get (screen (w s)) (cursorY (w s)) of
           None \<Rightarrow> Inl TypeError
         | Some r \<Rightarrow>
             Inr ((w s)\<lparr>screen := array_set (screen (w s)) (cursorY (w s))
                          (Some (array_set r (Num (cursorX (w s)))
                             (Some \<lparr>char = c, cell_attributes = attributes (w s)\<rparr>))),
                      cursorX := cursorX (w s) + 1\<rparr>))" for s
    unfolding insertCharacter_def w_def Let_def by (rule refl)
  show ?thesis
  proof (cases "array_get (screen (w s1)) (cursorY (w s1))")
    case None
    then show ?thesis by (simp add: i)
  next
    case (Some r1)
    from sim_row [OF w Some] sim_fields(1,2) [OF w] obtain r2 where
      r2: "array_get (screen (w s2)) (cursorY (w s2)) = Some r2" "row_glyph r2 = row_glyph r1"
      by auto
    let ?c1 = "\<lparr>char = c, cell_attributes = attributes (w s1)\<rparr>"
    let ?c2 = "\<lparr>char = c, cell_attributes = attributes (w s2)\<rparr>"
    from r2 have "row_glyph (array_set r1 (Num (cursorX (w s1))) (Some ?c1)) =
        row_glyph (array_set r2 (Num (cursorX (w s1))) (Some ?c2))"
      by (simp add: row_glyph_set)
    from sim_cursorX [OF sim_store [OF w this, of "cursorY (w s1)"], of "cursorX (w s1) + 1"]
      Some r2 sim_fields(1,2) [OF w]
    show ?thesis by (simp add: i)
  qed
qed

lemma sim_clearRow: "sim s1 s2 \<Longrightarrow> sim (clearRow r s1) (clearRow r s2)"
  by (auto simp: sim_def visible_def saved_position_def glyph_clearRow)

lemma sim_clearRows:
  "clearRows a b s1 = Some t1 \<Longrightarrow> sim s1 s2 \<Longrightarrow> \<exists>t2. clearRows a b s2 = Some t2 \<and> sim t1 t2"
proof (induction arbitrary: s2 rule: clearRows_induct)
  case (stop a b s)
  then show ?case by (subst clearRows.simps) simp
next
  case (step a b s s')
  from step.IH [OF sim_clearRow [OF step.prems]] step.hyps show ?case
    by (subst clearRows.simps) simp
qed

lemma eraseLine_eraseCells:
  "eraseLine mode s =
     (if mode = Num 0 then eraseCells [cursorX s..cols s - 1] s
      else if mode = Num 1 then eraseCells [0..cursorX s] s
      else if mode = Num 2 then Inr (clearRow (cursorY s) s)
      else Inr s)"
  unfolding eraseLine_def eraseCells_def Let_def by (rule refl)

lemma sim_eraseCells:
  assumes "sim s1 s2"
  shows "sim_result (eraseCells cs s1) (eraseCells cs s2)"
proof (cases "array_get (screen s1) (cursorY s1)")
  case None
  show ?thesis
  proof (cases "array_get (screen s2) (cursorY s2)")
    case n2: None
    with None assms show ?thesis by (simp add: eraseCells_def)
  next
    case (Some r2)
    with None sim_restore [OF assms Some] show ?thesis by (simp add: eraseCells_def)
  qed
next
  case (Some r1)
  from sim_row [OF assms Some] sim_fields(2) [OF assms] obtain r2 where
    r2: "array_get (screen s2) (cursorY s2) = Some r2" "row_glyph r2 = row_glyph r1"
    by auto
  then have "row_glyph (fold (\<lambda>col l. array_set l (Num col) (Some (blank (attributes s1)))) cs r1) =
      row_glyph (fold (\<lambda>col l. array_set l (Num col) (Some (blank (attributes s2)))) cs r2)"
    by (simp add: row_glyph_fill fun_eq_iff)
  from sim_store [OF assms this, of "cursorY s1"] Some r2 sim_fields(2) [OF assms]
  show ?thesis by (simp add: eraseCells_def)
qed

lemma sim_eraseLine:
  assumes "sim s1 s2"
  shows "sim_result (eraseLine mode s1) (eraseLine mode s2)"
  using sim_eraseCells [OF assms] sim_clearRow [OF assms] sim_fields [OF assms] assms
  by (simp add: eraseLine_eraseCells)

lemma sim_eraseLine_returns:
  assumes "sim s1 s2" "eraseLine mode s1 = Inr t1"
  shows "\<exists>t2. eraseLine mode s2 = Inr t2 \<and> sim t1 t2"
  using sim_eraseLine [OF assms(1), of mode] assms(2) by (simp add: sim_result_def)

lemma sim_eraseDisplay:
  assumes "sim s1 s2" "eraseDisplay mode s1 = Some (Inr s1')"
  shows "\<exists>s2'. eraseDisplay mode s2 = Some (Inr s2') \<and> sim s1' s2'"
proof -
  from sim_fields [OF assms(1)] have e: "cursorY s1 = cursorY s2" "rows s1 = rows s2" by simp_all
  consider "mode = Num 0" | "mode = Num 1" | "mode = Num 2"
    | "mode \<noteq> Num 0" "mode \<noteq> Num 1" "mode \<noteq> Num 2" by blast
  then show ?thesis
  proof cases
    case 1
    with assms(2) obtain t1 where l: "eraseLine (Num 0) s1 = Inr t1"
      and c: "clearRows (add (cursorY t1) (Num 1)) (Num (rows t1)) t1 = Some s1'"
      by (auto simp: eraseDisplay_def split: sum.splits)
    from sim_eraseLine_returns [OF assms(1) l] obtain t2 where
      t2: "eraseLine (Num 0) s2 = Inr t2" "sim t1 t2" by blast
    from sim_clearRows [OF c t2(2)] sim_fields [OF t2(2)] obtain s2' where
      "clearRows (add (cursorY t2) (Num 1)) (Num (rows t2)) t2 = Some s2'" "sim s1' s2'" by auto
    with 1 t2 show ?thesis by (simp add: eraseDisplay_def)
  next
    case 2
    with assms(2) obtain t1 where c: "clearRows (Num 0) (cursorY s1) s1 = Some t1"
      and l: "eraseLine (Num 1) t1 = Inr s1'"
      by (auto simp: eraseDisplay_def)
    from sim_clearRows [OF c assms(1)] e obtain t2 where
      t2: "clearRows (Num 0) (cursorY s2) s2 = Some t2" "sim t1 t2" by auto
    from sim_eraseLine_returns [OF t2(2) l] obtain s2' where
      "eraseLine (Num 1) t2 = Inr s2'" "sim s1' s2'" by blast
    with 2 t2 show ?thesis by (simp add: eraseDisplay_def)
  next
    case 3
    with assms(2) obtain t1 where c: "clearRows (Num 0) (Num (rows s1)) s1 = Some t1"
      and l: "s1' = setCursorPosition (Num 1) (Num 1) t1"
      by (auto simp: eraseDisplay_def)
    from sim_clearRows [OF c assms(1)] e obtain t2 where
      t2: "clearRows (Num 0) (Num (rows s2)) s2 = Some t2" "sim t1 t2" by auto
    with 3 l sim_scalar(8) [OF t2(2)] show ?thesis by (simp add: eraseDisplay_def)
  next
    case 4
    with assms show ?thesis by (simp add: eraseDisplay_def)
  qed
qed

lemma sim_csiCommand:
  assumes "sim s1 s2" "csiCommand c ps s1 = Some (Inr s1')"
  shows "\<exists>s2'. csiCommand c ps s2 = Some (Inr s2') \<and> sim s1' s2'"
proof (cases "c = of_char CHR ''J''")
  case True
  with assms sim_eraseDisplay [OF assms(1), of "param_or ps 0 (Num 0)" s1'] show ?thesis
    by (simp add: csiCommand_def)
next
  case noJ: False
  show ?thesis
  proof (cases "c = of_char CHR ''K''")
    case True
    with assms sim_eraseLine_returns [OF assms(1), of "param_or ps 0 (Num 0)" s1'] show ?thesis
      by (simp add: csiCommand_def)
  next
    case False
    from sim_fields(3) [OF assms(1)]
    have "sim (setScrollRegion (param_or ps 0 (Num 1)) (param_or ps 1 (Num (rows s1))) s1)
        (setScrollRegion (param_or ps 0 (Num 1)) (param_or ps 1 (Num (rows s2))) s2)"
      by (simp add: sim_setScrollRegion [OF assms(1)] param_or_number)
    with noJ False assms(2) sim_scalar [OF assms(1)] sim_restoreCursor [OF assms(1)]
      sim_setMode [OF assms(1)] assms(1)
    show ?thesis by (auto simp: csiCommand_def split: if_splits)
  qed
qed

lemma sim_processCSISequence:
  assumes "sim s1 s2" "processCSISequence t st s1 = Some (Inr (j, s1'))"
  shows "\<exists>s2'. processCSISequence t st s2 = Some (Inr (j, s2')) \<and> sim s1' s2'"
proof -
  obtain q i where c: "collectParams t st [] = (q, i)" by (cases "collectParams t st []")
  show ?thesis
  proof (cases "i \<ge> length t")
    case True
    with assms c show ?thesis by (simp add: processCSISequence_def)
  next
    case False
    let ?ps = "if q \<noteq> [] then map parseInt_or0 (split (of_char CHR '';'') q) else []"
    from assms(2) c False have "csiCommand (t ! i) ?ps s1 = Some (Inr s1')" "j = i + 1"
      by (auto simp: processCSISequence_def Let_def split: sum.splits option.splits)
    with sim_csiCommand [OF assms(1), of "t ! i" ?ps s1'] obtain s2' where
      "csiCommand (t ! i) ?ps s2 = Some (Inr s2')" "sim s1' s2'"
      by auto
    with c False \<open>j = i + 1\<close> show ?thesis by (simp add: processCSISequence_def Let_def)
  qed
qed

lemma sim_processEscapeSequence:
  assumes "sim s1 s2" "processEscapeSequence t i s1 = Some (Inr (j, s1'))"
  shows "\<exists>s2'. processEscapeSequence t i s2 = Some (Inr (j, s2')) \<and> sim s1' s2'"
proof (cases "i + 1 \<ge> length t")
  case True
  with assms show ?thesis by (simp add: processEscapeSequence_def)
next
  case False
  show ?thesis
  proof (cases "t ! (i + 1) = of_char CHR ''[''")
    case True
    with assms False sim_processCSISequence [OF assms(1), of t "i + 2" j s1'] show ?thesis
      by (simp add: processEscapeSequence_def)
  next
    case nocsi: False
    let ?c = "t ! (i + 1)"
    let ?f = "\<lambda>s. if ?c = of_char CHR ''M'' then reverseIndex s
                 else if ?c = of_char CHR ''D'' then index s
                 else if ?c = of_char CHR ''E'' then nextLine s
                 else if ?c = of_char CHR ''H'' then s
                 else if ?c = of_char CHR ''7'' then saveCursor s
                 else if ?c = of_char CHR ''8'' then restoreCursor s
                 else s"
    have k: "sim (?f s1) (?f s2)"
      using assms(1) sim_reverseIndex sim_index sim_nextLine sim_scalar(10) sim_restoreCursor
      by simp
    have e: "processEscapeSequence t i s =
        (if ?c = of_char CHR '']'' then Some (Inr (processOSCSequence t (i + 2), s))
         else if ?c = of_char CHR ''('' then Some (Inr (i + 3, s))
         else Some (Inr (i + 2, ?f s)))" for s
      using False nocsi by (simp add: processEscapeSequence_def Let_def)
    from assms k show ?thesis
      unfolding e by (auto split: if_splits)
  qed
qed

lemma sim_processUnit:
  assumes "sim s1 s2" "processUnit t i s1 = Some (Inr (j, s1'))"
  shows "\<exists>s2'. processUnit t i s2 = Some (Inr (j, s2')) \<and> sim s1' s2'"
proof (cases "t ! i = ESC")
  case True
  with assms sim_processEscapeSequence [OF assms(1), of t i j s1'] show ?thesis
    by (simp add: processUnit_def)
next
  case False
  show ?thesis
  proof (cases "t ! i \<ge> 32")
    case True
    with assms(2) False obtain "insertCharacter (t ! i) s1 = Inr s1'" "j = i + 1"
      by (auto simp: processUnit_def Let_def LF_def split: if_splits sum.splits)
    with sim_insertCharacter [OF assms(1), of "t ! i"] obtain s2' where
      "insertCharacter (t ! i) s2 = Inr s2'" "sim s1' s2'"
      by (auto simp: sim_result_def)
    with True False \<open>j = i + 1\<close> show ?thesis
      by (auto simp: processUnit_def Let_def LF_def)
  next
    case ctl: False
    with assms False sim_scalar(1-3) [OF assms(1)] sim_lineFeed [OF assms(1)] show ?thesis
      by (auto simp: processUnit_def Let_def split: if_splits)
  qed
qed

lemma sim_processOutput_loop:
  "sim s1 s2 \<Longrightarrow> processOutput_loop t i s1 = Some (Inr s1') \<Longrightarrow>
     \<exists>s2'. processOutput_loop t i s2 = Some (Inr s2') \<and> sim s1' s2'"
proof (induction t i s1 arbitrary: s2 rule: processOutput_loop.induct)
  case (1 t i s1)
  show ?case
  proof (cases "i < length t")
    case False
    with "1.prems" show ?thesis
      by (subst processOutput_loop.simps, subst (asm) processOutput_loop.simps) simp
  next
    case True
    with "1.prems"(2) obtain j u1 where u: "processUnit t i s1 = Some (Inr (j, u1))"
      and l: "processOutput_loop t j u1 = Some (Inr s1')"
      by (subst (asm) processOutput_loop.simps) (auto split: sum.splits option.splits)
    from sim_processUnit [OF "1.prems"(1) u] obtain u2 where
      u2: "processUnit t i s2 = Some (Inr (j, u2))" "sim u1 u2" by blast
    from "1.IH" [OF True u refl refl u2(2) l] obtain s2' where
      "processOutput_loop t j u2 = Some (Inr s2')" "sim s1' s2'" by blast
    with True u2(1) show ?thesis
      by (subst processOutput_loop.simps) simp
  qed
qed

lemma sim_log:
  "sim s1 s2 \<Longrightarrow> sim (addToReplayLog ty d s1) s2"
  using glyph_screen [of "addToReplayLog ty d s1" s1]
  by (auto simp: sim_def visible_def saved_position_def)

lemma sim_write':
  assumes "sim s1 s2" "isReplaying s2" "write' d s1 = Some (Inr s1')"
  shows "\<exists>s2'. write' d s2 = Some (Inr s2') \<and> sim s1' s2'"
proof -
  let ?l = "if enableReplay \<and> \<not> isReplaying s1 then addToReplayLog ''output'' d s1 else s1"
  from assms(1) have "sim ?l s2" by (simp add: sim_log)
  moreover from assms(3) have "processOutput_loop d 0 ?l = Some (Inr s1')"
    by (simp add: write'_def processOutput_def)
  ultimately obtain s2' where "processOutput_loop d 0 s2 = Some (Inr s2')" "sim s1' s2'"
    using sim_processOutput_loop by blast
  with assms(2) show ?thesis by (simp add: write'_def processOutput_def)
qed

lemma run_Write:
  assumes "run (map Write (d # ws)) s0 = Some (Inr s)"
  obtains s1 where "write' d s0 = Some (Inr s1)" "run (map Write ws) s1 = Some (Inr s)"
  using assms by (auto split: sum.splits option.splits)

lemma live_log:
  "run (map Write ws) s0 = Some (Inr s) \<Longrightarrow> \<not> isReplaying s0 \<Longrightarrow>
   length (sessionLog s0) + length ws \<le> 1000000 \<Longrightarrow>
     sessionLog s = sessionLog s0 @ map output_entry ws \<and>
     rows s = rows s0 \<and> cols s = cols s0 \<and> wraparound s = wraparound s0"
proof (induction ws arbitrary: s0)
  case Nil
  then show ?case by simp
next
  case (Cons d ws)
  from Cons.prems(1) obtain s1 where w: "write' d s0 = Some (Inr s1)"
    and r: "run (map Write ws) s1 = Some (Inr s)"
    by (rule run_Write)
  from write'_frame [OF w] Cons.prems(2,3)
  have f: "\<not> isReplaying s1" "rows s1 = rows s0" "cols s1 = cols s0" "wraparound s1 = wraparound s0"
    "sessionLog s1 = sessionLog s0 @ [output_entry d]"
    by (simp_all add: enableReplay_def addToReplayLog_def maxReplaySize_def output_entry_def Let_def)
  with Cons.prems(3) have "length (sessionLog s1) + length ws \<le> 1000000" by simp
  from Cons.IH [OF r f(1) this] f show ?case by simp
qed

lemma stepReplay_output:
  assumes "isReplaying s" "replayData s = map output_entry ws" "replayIndex s = i" "i < length ws"
    and "write' (ws ! i) s = Some (Inr s')"
  shows "stepReplay s = Some (Inr (i + 1 < length ws, s'\<lparr>replayIndex := i + 1\<rparr>))"
  using assms write'_frame(1,2) [OF assms(5)]
  by (simp add: stepReplay_def output_entry_def Let_def)

lemma replay_follows:
  assumes "sim s1 s2" "isReplaying s2" "replayData s2 = map output_entry ws" "replayIndex s2 = i"
    and "i \<le> length ws" "run (map Write (drop i ws)) s1 = Some (Inr s1')"
  shows "\<exists>s2'. replay_to_end s2 = Some (Inr s2') \<and> sim s1' s2'"
  using assms
proof (induction "length ws - i" arbitrary: i s1 s2)
  case 0
  then have "stepReplay s2 = Some (Inr (False, s2))" by (simp add: stepReplay_def)
  then have "replay_to_end s2 = Some (Inr s2)" by (subst replay_to_end.simps) simp
  with 0 show ?case by simp
next
  case (Suc n)
  then have i: "i < length ws" by simp
  then have d: "drop i ws = ws ! i # drop (i + 1) ws" by (simp add: Cons_nth_drop_Suc)
  with Suc.prems(6) obtain s1a where w1: "write' (ws ! i) s1 = Some (Inr s1a)"
    and r1: "run (map Write (drop (i + 1) ws)) s1a = Some (Inr s1')"
    by (auto split: sum.splits option.splits)
  from sim_write' [OF Suc.prems(1,2) w1] obtain s2a where
    w2: "write' (ws ! i) s2 = Some (Inr s2a)" and s: "sim s1a s2a" by blast
  let ?s2b = "s2a\<lparr>replayIndex := i + 1\<rparr>"
  from stepReplay_output [OF Suc.prems(2,3,4) i w2]
  have st: "stepReplay s2 = Some (Inr (i + 1 < length ws, ?s2b))" .
  from s have sb: "sim s1a ?s2b" by (auto simp: sim_def saved_position_def)
  show ?case
  proof (cases "i + 1 < length ws")
    case True
    from write'_frame(1,3) [OF w2] Suc.prems(2,3)
    have f: "isReplaying ?s2b" "replayData ?s2b = map output_entry ws" "replayIndex ?s2b = i + 1"
      by simp_all
    from Suc.hyps(2) have n: "n = length ws - (i + 1)" by simp
    from Suc.hyps(1) [OF n sb f _ r1] True obtain s2' where
      "replay_to_end ?s2b = Some (Inr s2')" "sim s1' s2'" by auto
    with st True show ?thesis by (subst replay_to_end.simps) simp
  next
    case False
    with i have "drop (i + 1) ws = []" by simp
    with r1 have "s1' = s1a" by simp
    with st False sb show ?thesis by (subst replay_to_end.simps) simp
  qed
qed

lemma lineText_glyph:
  "lineText s r cs =
     (case glyph s (Num r) of
        None \<Rightarrow> []
      | Some g \<Rightarrow> concat (map (\<lambda>col. case g (Num col) of None \<Rightarrow> [] | Some ch \<Rightarrow> [ch]) cs))"
proof (cases "array_get (screen s) (Num r)")
  case None
  have "fold (\<lambda>col t. t) cs t0 = t0" for t0 :: jsstring
    by (induction cs) simp_all
  with None show ?thesis by (simp add: lineText_def glyph_def)
next
  case (Some line)
  have "(case array_get line (Num col) of None \<Rightarrow> [] | Some c \<Rightarrow> [char c]) =
      (case row_glyph line (Num col) of None \<Rightarrow> [] | Some ch \<Rightarrow> [ch])" for col
    by (simp add: row_glyph_def split: option.splits)
  with Some show ?thesis by (simp add: lineText_cells glyph_def)
qed

lemma getScreenText_sim:
  assumes "sim s1 s2"
  shows "getScreenText s2 = getScreenText s1"
proof -
  from assms have e: "rows s2 = rows s1" "cols s2 = cols s1" by (simp_all add: sim_def)
  have "lineText s2 r cs = lineText s1 r cs" if "r \<in> set [0..rows s1 - 1]" for r cs
  proof -
    from that assms have "glyph s1 (Num r) \<noteq> None" by (simp add: sim_def visible_def)
    with assms have "glyph s2 (Num r) = glyph s1 (Num r)" by (simp add: sim_def)
    then show ?thesis by (simp add: lineText_glyph)
  qed
  then show ?thesis
    unfolding getScreenText_def e by (intro fold_cong) (simp_all add: e)
qed

lemma sim_startReplay:
  assumes "rows s = 24" "cols s = 80" "wraparound s" "scrollTop s = Num 0"
    "scrollBottom s = Num 23" "savedCursor s = None"
  shows "sim fresh ((initializeScreen (s\<lparr>isReplaying := True, replayIndex := 0, replayData := d\<rparr>))
                  \<lparr>cursorX := 0, cursorY := Num 0\<rparr>)"
proof -
  have g: "glyph fresh k = (if k \<in> Num ` {0..23} then Some (blank_glyph 80) else None)" for k
    by (simp add: fresh_def initializeScreen_def glyph_fold_clearRow) (simp add: glyph_def)
  with assms show ?thesis
    by (auto simp: sim_def visible_def saved_position_def initializeScreen_def glyph_fold_clearRow
        glyph_screen [of "s\<lparr>isReplaying := True, replayIndex := 0, replayData := d\<rparr>" s])
qed

text \<open>
  Claim C5, as the code has it. For a sequence of at most \<open>maxReplaySize\<close> writes
  applied to a fresh terminal, each returning without an exception, if the state the
  replay starts from has the scroll region on the whole screen and no saved cursor, then
  \<open>startReplay\<close> on the recorded entries followed by \<open>stepReplay\<close> until it returns
  false returns, and the final \<open>getScreenText\<close> equals the one after the live writes.
\<close>

theorem replay_fidelity:
  assumes "run (map Write ws) fresh = Some (Inr s)" and "length ws \<le> 1000000"
    and "scrollTop s = Num 0" and "scrollBottom s = Num (rows s - 1)" and "savedCursor s = None"
  shows "\<exists>r0 r. startReplay (sessionLog s) s = Inr r0 \<and> replay_to_end r0 = Some (Inr r) \<and>
           getScreenText r = getScreenText s"
proof -
  from live_log [OF assms(1)] assms(2)
  have l: "sessionLog s = map output_entry ws" "rows s = 24" "cols s = 80" "wraparound s"
    by simp_all
  let ?r0 = "(initializeScreen (s\<lparr>isReplaying := True, replayIndex := 0, replayData := sessionLog s\<rparr>))
                  \<lparr>cursorX := 0, cursorY := Num 0\<rparr>"
  have st: "startReplay (sessionLog s) s = Inr ?r0"
    by (simp add: startReplay_def enableReplay_def)
  from l assms(3,4,5) have "sim fresh ?r0" by (intro sim_startReplay) simp_all
  moreover have "isReplaying ?r0" "replayData ?r0 = map output_entry ws" "replayIndex ?r0 = 0"
    by (simp_all add: initializeScreen_def l)
  ultimately obtain r where "replay_to_end ?r0 = Some (Inr r)" "sim s r"
    using replay_follows [of fresh ?r0 ws 0 s] assms(1) by auto
  with st getScreenText_sim [of s r] show ?thesis by auto
qed

lemma two_writes:
  "\<exists>s. run (map Write [str ''A'' @ [13, LF], str ''B'']) fresh = Some (Inr s) \<and>
     scrollTop s = Num 0 \<and> scrollBottom s = Num (rows s - 1) \<and> savedCursor s = None"
  by (simp add: fresh_closed parser_eval command_eval)

theorem replay_fidelity_witness:
  "\<exists>s. run (map Write [str ''A'' @ [13, LF], str ''B'']) fresh = Some (Inr s) \<and>
     length [str ''A'' @ [13, LF], str ''B''] \<le> 1000000 \<and>
     scrollTop s = Num 0 \<and> scrollBottom s = Num (rows s - 1) \<and> savedCursor s = None \<and>
     (\<exists>r0 r. startReplay (sessionLog s) s = Inr r0 \<and> replay_to_end r0 = Some (Inr r) \<and>
        getScreenText r = getScreenText s)"
proof -
  from two_writes obtain s where
    s: "run (map Write [str ''A'' @ [13, LF], str ''B'']) fresh = Some (Inr s)"
    "scrollTop s = Num 0" "scrollBottom s = Num (rows s - 1)" "savedCursor s = None"
    by blast
  from replay_fidelity [OF s(1) _ s(2,3,4)] s show ?thesis
    by (intro exI [of _ s]) simp
qed

lemma getScreenText_first_row:
  assumes "1 \<le> rows s"
  shows "\<exists>rest. getScreenText s = trimEnd (lineText s 0 [0..cols s - 1]) @ rest"
proof -
  have f: "fold (\<lambda>r t. t @ g r) rs t0 = t0 @ concat (map g rs)" for g :: "int \<Rightarrow> jsstring" and rs t0
    by (induction rs arbitrary: t0) simp_all
  from assms have u: "[0..rows s - 1] = 0 # [1..rows s - 1]" by (simp add: upto_rec1)
  show ?thesis
    unfolding getScreenText_def u
    using f [of "\<lambda>r. trimEnd (lineText s r [0..cols s - 1]) @ (if r < rows s - 1 then [LF] else [])"]
    by simp
qed

lemma restore_first_replayed:
  "\<exists>s r0 r. run [Write restore_first] fresh = Some (Inr s) \<and>
     startReplay (sessionLog s) s = Inr r0 \<and> replay_to_end r0 = Some (Inr r) \<and>
     rows s = 24 \<and> cols s = 80 \<and> rows r = 24 \<and> cols r = 80 \<and>
     array_get (screen s) (Num 0) =
       Some \<lparr>elems = (replicate 80 (Some (blank default_attributes)))
                  [0 := Some \<lparr>char = 88, cell_attributes = default_attributes\<rparr>], props = (\<lambda>k. None)\<rparr> \<and>
     array_get (screen r) (Num 0) =
       Some \<lparr>elems = (replicate 80 (Some (blank default_attributes)))
                  [6 := Some \<lparr>char = 88, cell_attributes = default_attributes\<rparr>], props = (\<lambda>k. None)\<rparr>"
  by (simp add: restore_first_def fresh_closed parser_eval command_eval saveCursor_def
      restoreCursor_def startReplay_def initializeScreen_closed new_row_closed
      replay_to_end.simps stepReplay_def)

text \<open>
  \<open>startReplay\<close> keeps the saved cursor. Live, the restore at the start of
  \<open>restore_first\<close> does nothing and X is printed at column 0; replayed, it moves the
  cursor to the position saved at the end of the live write and X is printed at column 6.
\<close>

theorem replay_differs:
  "\<exists>s r0 r. run [Write restore_first] fresh = Some (Inr s) \<and>
     startReplay (sessionLog s) s = Inr r0 \<and> replay_to_end r0 = Some (Inr r) \<and>
     getScreenText r \<noteq> getScreenText s"
proof -
  let ?rowS = "\<lparr>elems = (replicate 80 (Some (blank default_attributes)))
                  [0 := Some \<lparr>char = 88, cell_attributes = default_attributes\<rparr>], props = (\<lambda>k. None)\<rparr>"
  let ?rowR = "\<lparr>elems = (replicate 80 (Some (blank default_attributes)))
                  [6 := Some \<lparr>char = 88, cell_attributes = default_attributes\<rparr>], props = (\<lambda>k. None)\<rparr>"
  from restore_first_replayed obtain s r0 r where
    e: "run [Write restore_first] fresh = Some (Inr s)" "startReplay (sessionLog s) s = Inr r0"
      "replay_to_end r0 = Some (Inr r)"
    and d: "rows s = 24" "cols s = 80" "rows r = 24" "cols r = 80"
    and g: "array_get (screen s) (Num 0) = Some ?rowS" "array_get (screen r) (Num 0) = Some ?rowR"
    by blast
  have a0: "concat (map (\<lambda>col. case array_get ?rowS (Num col) of None \<Rightarrow> [] | Some c \<Rightarrow> [char c]) [0..79]) =
      88 # replicate 79 32"
    by code_simp
  have b0: "concat (map (\<lambda>col. case array_get ?rowR (Num col) of None \<Rightarrow> [] | Some c \<Rightarrow> [char c]) [0..79]) =
      replicate 6 32 @ 88 # replicate 73 32"
    by code_simp
  have w: "dropWhile isWhiteSpace (replicate n 32 @ t) = dropWhile isWhiteSpace t" for n t
    by (induction n) (simp_all add: isWhiteSpace_def)
  have a: "trimEnd (88 # replicate 79 32) = [88]"
    using w [of 79 "[88]"] by (simp add: trimEnd_def isWhiteSpace_def)
  have b: "trimEnd (replicate 6 32 @ 88 # replicate 73 32) = replicate 6 32 @ [88]"
    using w [of 73 "88 # replicate 6 32"] by (simp add: trimEnd_def isWhiteSpace_def)
  from getScreenText_first_row [of s] d a a0 obtain rest1 where "getScreenText s = [88] @ rest1"
    by (auto simp: lineText_cells [OF g(1)])
  moreover from getScreenText_first_row [of r] d b b0 obtain rest2 where
    "getScreenText r = (replicate 6 32 @ [88]) @ rest2"
    by (auto simp: lineText_cells [OF g(2)])
  ultimately have "hd (getScreenText s) = 88" "hd (getScreenText r) = 32"
    by (simp_all add: numeral_eq_Suc)
  then have "getScreenText r \<noteq> getScreenText s" by auto
  with e show ?thesis by blast
qed

end
